theory Spec2Isabelle
  imports Complex_Main "HOL-Library.Multiset"
begin

section \<open>Cell lists: fixed-radius nearest neighbour search\<close>

text \<open>
  A shallow embedding of \<^verbatim>\<open>src/cell_lists/core.py\<close>. An \<^verbatim>\<open>assert\<close> that fails, an index
  that is out of range, an allocation of negative size and an argument that the compiled
  signature does not admit are results of the model (\<open>Inl AssertionError\<close>,
  \<open>Inl IndexError\<close>, \<open>Inl ValueError\<close>, \<open>Inl TypeError\<close>); a negative index counts from the
  end of the array as in numpy, and a slice is clamped. Indexing is the checked indexing
  of the Python bodies. The arithmetic of \<^verbatim>\<open>add_to_cells\<close> and of the offsets is that of the
  machine: a quotient of two floats is rounded to the nearest 64-bit float, its conversion
  to a 64-bit integer cuts the fraction off, and sums, differences and products of 64-bit
  integers wrap around. The sums of indices, counts and costs in the enumeration and in the
  partition are not wrapped. An entry of the point array is a real number, meant to be a
  64-bit float; memory is not bounded.
\<close>

subsection \<open>Errors and array access\<close>

datatype py_error = AssertionError | IndexError | ValueError | TypeError

definition bind :: "py_error + 'a \<Rightarrow> ('a \<Rightarrow> py_error + 'b) \<Rightarrow> py_error + 'b" where
  "bind m f = (case m of Inl e \<Rightarrow> Inl e | Inr v \<Rightarrow> f v)"

text \<open>The position an integer index selects in an array of the given length, if any.\<close>

definition py_index :: "nat \<Rightarrow> int \<Rightarrow> nat option" where
  "py_index n i =
     (if 0 \<le> i \<and> i < int n then Some (nat i)
      else if - int n \<le> i \<and> i < 0 then Some (nat (int n + i))
      else None)"

definition getitem :: "'a list \<Rightarrow> int \<Rightarrow> py_error + 'a" where
  "getitem xs i = (case py_index (length xs) i of None \<Rightarrow> Inl IndexError | Some k \<Rightarrow> Inr (xs ! k))"

definition setitem :: "'a list \<Rightarrow> int \<Rightarrow> 'a \<Rightarrow> py_error + 'a list" where
  "setitem xs i v =
     (case py_index (length xs) i of None \<Rightarrow> Inl IndexError | Some k \<Rightarrow> Inr (xs[k := v]))"

text \<open>The slice \<^verbatim>\<open>xs[start:end]\<close>: negative bounds count from the end, both are clamped.\<close>

definition clamp_bound :: "nat \<Rightarrow> int \<Rightarrow> nat" where
  "clamp_bound n i = (if i < 0 then nat (max (i + int n) 0) else nat (min i (int n)))"

definition py_slice :: "'a list \<Rightarrow> int \<Rightarrow> int \<Rightarrow> 'a list" where
  "py_slice xs start end =
     (let a = clamp_bound (length xs) start; b = clamp_bound (length xs) end
      in take (b - a) (drop a xs))"

subsection \<open>Machine arithmetic\<close>

text \<open>A 64-bit signed integer wraps around: the result of an operation is taken modulo \<open>2 ^ 64\<close>.\<close>

definition wrap64 :: "int \<Rightarrow> int" where
  "wrap64 x = (x + 2 ^ 63) mod 2 ^ 64 - 2 ^ 63"

text \<open>The number of binary digits of a positive integer, and the power of two with an integer exponent.\<close>

function bit_length :: "int \<Rightarrow> int" where
  "bit_length n = (if n \<le> 0 then 0 else bit_length (n div 2) + 1)"
  by pat_completeness auto
termination
  by (relation "measure nat") auto

definition pow2 :: "int \<Rightarrow> real" where
  "pow2 k = (if 0 \<le> k then 2 ^ nat k else 1 / 2 ^ nat (- k))"

text \<open>The exponent e of a positive real a: \<open>2 ^ e \<le> a < 2 ^ (e + 1)\<close>.\<close>

definition ilog2 :: "real \<Rightarrow> int" where
  "ilog2 a =
     (if 1 \<le> a then bit_length \<lfloor>a\<rfloor> - 1
      else let L = bit_length \<lfloor>1 / a\<rfloor>
           in if a * pow2 (L - 1) = 1 then - (L - 1) else - L)"

text \<open>Rounding a non-negative real to the nearest integer, a tie to the even one.\<close>

definition round_half_even :: "real \<Rightarrow> int" where
  "round_half_even x =
     (let f = \<lfloor>x\<rfloor>; d = x - of_int f
      in if d < 1 / 2 then f else if 1 / 2 < d then f + 1 else if even f then f else f + 1)"

text \<open>
  Rounding a real to the nearest 64-bit float (53 binary digits, exponents from \<open>-1022\<close>,
  below them the fixed spacing \<open>2 ^ -1074\<close>, ties to even). Beyond the largest float the
  machine's result is an infinity; the value here is then at least \<open>2 ^ 1024\<close>, and the
  conversion \<open>int64\<close> answers both in the same way.
\<close>

definition round64 :: "real \<Rightarrow> real" where
  "round64 r =
     (if r = 0 then 0
      else let a = \<bar>r\<bar>; e = max (ilog2 a) (- 1022); ulp = pow2 (e - 52)
           in sgn r * ulp * of_int (round_half_even (a / ulp)))"

text \<open>\<^verbatim>\<open>x / y\<close> on 64-bit floats.\<close>

definition float_div :: "real \<Rightarrow> real \<Rightarrow> real" where
  "float_div x y = round64 (x / y)"

subsection \<open>Building the grid: \<^verbatim>\<open>add_to_cells\<close>\<close>

text \<open>
  The argument \<^verbatim>\<open>points\<close> is a numpy array of floats; \<open>Mat\<close> is a 2-dimensional array given
  by its rows (all of the same length), \<open>Vec\<close> a 1-dimensional one, which the compiled
  signature \<^verbatim>\<open>(f8[:, :], f8)\<close> does not admit.
\<close>

datatype f8_array = Vec "real list" | Mat "real list list"

fun ndim :: "f8_array \<Rightarrow> nat" where
  "ndim (Vec _) = 1"
| "ndim (Mat _) = 2"

text \<open>
  \<^verbatim>\<open>np.int64(x)\<close> and \<^verbatim>\<open>astype(np.int64)\<close> on a float: the fraction is cut off, towards zero;
  a float outside the range of the 64-bit integers is converted to the least of them.
\<close>

definition int64 :: "real \<Rightarrow> int" where
  "int64 x =
     (let t = (if x < 0 then \<lceil>x\<rceil> else \<lfloor>x\<rfloor>)
      in if - (2 ^ 63) \<le> t \<and> t < 2 ^ 63 then t else - (2 ^ 63))"

text \<open>The integer cell coordinates of one row: \<^verbatim>\<open>np.int64(points[i, j] / cell_size)\<close> for every j.\<close>

definition cell_row :: "real \<Rightarrow> real list \<Rightarrow> int list" where
  "cell_row cell_size row = map (\<lambda>x. int64 (float_div x cell_size)) row"

text \<open>One pass of the inner loop of the range computation, over the columns of row i.\<close>

definition update_min :: "int list \<Rightarrow> int list \<Rightarrow> int list" where
  "update_min x_min xs = map2 (\<lambda>x m. if x < m then x else m) xs x_min"

definition update_max :: "int list \<Rightarrow> int list \<Rightarrow> int list" where
  "update_max x_max xs = map2 (\<lambda>x m. if x > m then x else m) xs x_max"

definition x_min :: "real \<Rightarrow> real list list \<Rightarrow> int list" where
  "x_min cell_size rows =
     foldl update_min (cell_row cell_size (hd rows)) (map (cell_row cell_size) (tl rows))"

definition x_max :: "real \<Rightarrow> real list list \<Rightarrow> int list" where
  "x_max cell_size rows =
     foldl update_max (cell_row cell_size (hd rows)) (map (cell_row cell_size) (tl rows))"

text \<open>\<^verbatim>\<open>grid_shape = (x_max - x_min) + 1 + 2\<close>\<close>

definition grid_shape :: "real \<Rightarrow> real list list \<Rightarrow> int list" where
  "grid_shape cell_size rows =
     map2 (\<lambda>mx mn. wrap64 (wrap64 (wrap64 (mx - mn) + 1) + 2))
          (x_max cell_size rows) (x_min cell_size rows)"

text \<open>\<^verbatim>\<open>np.prod\<close> of an array of 64-bit integers.\<close>

definition np_prod :: "int list \<Rightarrow> int" where
  "np_prod xs = foldl (\<lambda>a x. wrap64 (a * x)) 1 xs"

text \<open>
  The flattening loop, \<^verbatim>\<open>l = v[0]\<close>, then \<^verbatim>\<open>l = l * shape[j] + v[j]\<close> for j from 1 on. It is the
  loop of \<^verbatim>\<open>add_to_cells\<close> over the normalised coordinates of a point and the loop of
  \<^verbatim>\<open>_neighboring_cells\<close> over a tuple of the product. Reading \<^verbatim>\<open>v[0]\<close> of an empty row is an
  index error.
\<close>

definition flatten :: "int list \<Rightarrow> int list \<Rightarrow> py_error + int" where
  "flatten shape v =
     (case v of [] \<Rightarrow> Inl IndexError
      | v0 # vs \<Rightarrow> Inr (foldl (\<lambda>l (i, n). wrap64 (wrap64 (l * n) + i)) v0 (zip vs (tl shape))))"

text \<open>The normalised coordinates \<^verbatim>\<open>np.int64(points[i, j] / cell_size) - x_min[j] + 1\<close> of a row.\<close>

definition normalized :: "int list \<Rightarrow> int list \<Rightarrow> int list" where
  "normalized mn xs = map2 (\<lambda>x m. wrap64 (wrap64 (x - m) + 1)) xs mn"

fun compute_cells :: "real \<Rightarrow> int list \<Rightarrow> int list \<Rightarrow> real list list \<Rightarrow> py_error + int list" where
  "compute_cells cell_size mn shape [] = Inr []"
| "compute_cells cell_size mn shape (row # rows) =
     bind (flatten shape (normalized mn (cell_row cell_size row))) (\<lambda>l.
     bind (compute_cells cell_size mn shape rows) (\<lambda>ls. Inr (l # ls)))"

text \<open>\<^verbatim>\<open>for l in cells: cells_count[l] += 1\<close>\<close>

fun count_cells :: "int list \<Rightarrow> int list \<Rightarrow> py_error + int list" where
  "count_cells cells_count [] = Inr cells_count"
| "count_cells cells_count (l # ls) =
     bind (getitem cells_count l) (\<lambda>c.
     bind (setitem cells_count l (c + 1)) (\<lambda>cells_count'. count_cells cells_count' ls))"

fun cumsum_from :: "int \<Rightarrow> int list \<Rightarrow> int list" where
  "cumsum_from acc [] = []"
| "cumsum_from acc (x # xs) = (acc + x) # cumsum_from (acc + x) xs"

definition cumsum :: "int list \<Rightarrow> int list" where
  "cumsum xs = cumsum_from 0 xs"

text \<open>
  The placement loop over \<^verbatim>\<open>enumerate(cells)\<close>: the index of the point is stored one below
  the running offset of its cell, and that offset is decremented.
\<close>

fun place :: "int list \<Rightarrow> int list \<Rightarrow> (int \<times> int) list \<Rightarrow> py_error + int list \<times> int list" where
  "place points_indices cells_offset [] = Inr (points_indices, cells_offset)"
| "place points_indices cells_offset ((i, l) # rest) =
     bind (getitem cells_offset l) (\<lambda>offset.
     bind (setitem points_indices (offset - 1) i) (\<lambda>points_indices'.
     bind (getitem cells_offset l) (\<lambda>o'.
     bind (setitem cells_offset l (o' - 1)) (\<lambda>cells_offset'.
       place points_indices' cells_offset' rest))))"

definition enumerate_int :: "'a list \<Rightarrow> (int \<times> 'a) list" where
  "enumerate_int xs = zip (map int [0..<length xs]) xs"

text \<open>
  \<^verbatim>\<open>np.empty\<close> allocates without initialising. In \<^verbatim>\<open>add_to_cells\<close> the array \<^verbatim>\<open>points_indices\<close>
  is allocated so; the loop \<open>place\<close> is also verified for an arbitrary initial content.
\<close>

definition np_empty :: "nat \<Rightarrow> int list" where
  "np_empty n = replicate n 0"

text \<open>\<^verbatim>\<open>np.zeros(shape=n)\<close>: a negative size is refused.\<close>

definition np_zeros :: "int \<Rightarrow> py_error + int list" where
  "np_zeros n = (if n < 0 then Inl ValueError else Inr (replicate (nat n) 0))"

definition add_to_cells ::
  "f8_array \<Rightarrow> real \<Rightarrow> py_error + int list \<times> int list \<times> int list \<times> int list" where
  "add_to_cells points cell_size =
     (case points of
        Vec _ \<Rightarrow> Inl TypeError
      | Mat rows \<Rightarrow>
          if \<not> (cell_size > 0 \<and> ndim points = 2) then Inl AssertionError
          else if rows = [] then Inl IndexError
          else
            let shape = grid_shape cell_size rows;
                grid_size = np_prod shape
            in bind (compute_cells cell_size (x_min cell_size rows) shape rows) (\<lambda>cells.
               bind (np_zeros grid_size) (\<lambda>zeros.
               bind (count_cells zeros cells) (\<lambda>cells_count.
               bind (place (np_empty (length rows)) (cumsum cells_count) (enumerate_int cells))
                 (\<lambda>(points_indices, cells_offset).
                    Inr (points_indices, cells_count, cells_offset, shape))))))"

subsection \<open>Neighbour offsets: \<^verbatim>\<open>neighboring_cells\<close>\<close>

text \<open>\<^verbatim>\<open>itertools.product\<close> of a list of sequences: the leftmost position varies slowest.\<close>

fun itertools_product :: "'a list list \<Rightarrow> 'a list list" where
  "itertools_product [] = [[]]"
| "itertools_product (xs # xss) =
     concat (map (\<lambda>x. map (\<lambda>t. x # t) (itertools_product xss)) xs)"

text \<open>\<^verbatim>\<open>tuple(range(-distance, distance + 1))\<close>\<close>

definition base :: "int \<Rightarrow> int list" where
  "base distance = [- distance ..distance]"

text \<open>The tuples kept by \<^verbatim>\<open>prod[len(prod) // 2 + 1:]\<close>.\<close>

definition kept_tuples :: "nat \<Rightarrow> int \<Rightarrow> int list list" where
  "kept_tuples d distance =
     (let prod = itertools_product (replicate d (base distance))
      in drop (length prod div 2 + 1) prod)"

fun neighboring_cells_kernel :: "int list list \<Rightarrow> int list \<Rightarrow> py_error + int list" where
  "neighboring_cells_kernel [] shape = Inr []"
| "neighboring_cells_kernel (t # ts) shape =
     bind (flatten shape t) (\<lambda>l.
     bind (neighboring_cells_kernel ts shape) (\<lambda>ls. Inr (l # ls)))"

text \<open>
  The kept tuples go through \<^verbatim>\<open>np.array\<close> to the compiled kernel. Of an empty list of tuples
  \<^verbatim>\<open>np.array\<close> makes a 1-dimensional array of floats, which the signature of the kernel does
  not admit; this happens for an empty shape only.
\<close>

definition neighboring_cells :: "int list \<Rightarrow> int \<Rightarrow> py_error + int list" where
  "neighboring_cells shape distance =
     (if \<not> distance \<ge> 1 then Inl AssertionError
      else if kept_tuples (length shape) distance = [] then Inl TypeError
      else neighboring_cells_kernel (kept_tuples (length shape) distance) shape)"

subsection \<open>Enumerating pairs: \<^verbatim>\<open>iter_nearest_neighbors\<close>\<close>

definition find_points_in_cell ::
  "int \<Rightarrow> int list \<Rightarrow> int list \<Rightarrow> int list \<Rightarrow> py_error + int list" where
  "find_points_in_cell cell_index points_indices cells_count cells_offset =
     bind (getitem cells_offset cell_index) (\<lambda>start.
     bind (getitem cells_count cell_index) (\<lambda>c.
       Inr (py_slice points_indices start (start + c))))"

text \<open>
  The pairs of one cell: \<^verbatim>\<open>for k, i in enumerate(points_cur[:-1]): for j in points_cur[k + 1:]\<close>.
\<close>

definition intra_pairs :: "int list \<Rightarrow> (int \<times> int) list" where
  "intra_pairs points_cur =
     concat (map (\<lambda>(k, i). map (\<lambda>j. (i, j)) (drop (k + 1) points_cur))
                 (zip [0..<length (butlast points_cur)] (butlast points_cur)))"

text \<open>\<^verbatim>\<open>for i in points_cur: for j in points_neigh: yield i, j\<close>\<close>

definition cross_pairs :: "int list \<Rightarrow> int list \<Rightarrow> (int \<times> int) list" where
  "cross_pairs points_cur points_neigh =
     concat (map (\<lambda>i. map (\<lambda>j. (i, j)) points_neigh) points_cur)"

fun neighbor_loop ::
  "int \<Rightarrow> int list \<Rightarrow> int list \<Rightarrow> int list \<Rightarrow> int list \<Rightarrow> int list \<Rightarrow>
   py_error + (int \<times> int) list" where
  "neighbor_loop cur_cell points_cur points_indices cells_count cells_offset [] = Inr []"
| "neighbor_loop cur_cell points_cur points_indices cells_count cells_offset (neigh_cell # rest) =
     bind (find_points_in_cell (cur_cell + neigh_cell) points_indices cells_count cells_offset)
       (\<lambda>points_neigh.
     bind (neighbor_loop cur_cell points_cur points_indices cells_count cells_offset rest)
       (\<lambda>ps. Inr (cross_pairs points_cur points_neigh @ ps)))"

text \<open>
  The generator is modelled by the list of the pairs it yields when it is run to its end,
  or by the error that stops it.
\<close>

fun iter_nearest_neighbors ::
  "int list \<Rightarrow> int list \<Rightarrow> int list \<Rightarrow> int list \<Rightarrow> int list \<Rightarrow> py_error + (int \<times> int) list" where
  "iter_nearest_neighbors [] neigh_cells points_indices cells_count cells_offset = Inr []"
| "iter_nearest_neighbors (cur_cell # rest) neigh_cells points_indices cells_count cells_offset =
     bind (getitem cells_count cur_cell) (\<lambda>c.
       if c = 0 then iter_nearest_neighbors rest neigh_cells points_indices cells_count cells_offset
       else
         bind (find_points_in_cell cur_cell points_indices cells_count cells_offset)
           (\<lambda>points_cur.
         bind (neighbor_loop cur_cell points_cur points_indices cells_count cells_offset neigh_cells)
           (\<lambda>cross.
         bind (iter_nearest_neighbors rest neigh_cells points_indices cells_count cells_offset)
           (\<lambda>ps. Inr (intra_pairs points_cur @ cross @ ps)))))"

text \<open>\<^verbatim>\<open>np.arange(len(cells_count))\<close>\<close>

definition arange :: "nat \<Rightarrow> int list" where
  "arange n = map int [0..<n]"

subsection \<open>Partitioning the cells: \<^verbatim>\<open>partition_cells\<close>\<close>

text \<open>\<^verbatim>\<open>for j in neigh_cells: interactions_total += count * cells_count[i + j]\<close>\<close>

fun cross_interactions :: "int list \<Rightarrow> int \<Rightarrow> int \<Rightarrow> int \<Rightarrow> int list \<Rightarrow> py_error + int" where
  "cross_interactions cells_count i cnt acc [] = Inr acc"
| "cross_interactions cells_count i cnt acc (j # js) =
     bind (getitem cells_count (i + j)) (\<lambda>c.
       cross_interactions cells_count i cnt (acc + cnt * c) js)"

text \<open>
  The loop over \<^verbatim>\<open>enumerate(cells_count)\<close>. The array \<^verbatim>\<open>interactions_cumsum\<close> comes from
  \<^verbatim>\<open>np.empty_like\<close>, and the entry of a cell with no point is never written.
\<close>

fun interactions ::
  "int list \<Rightarrow> int list \<Rightarrow> int \<Rightarrow> int list \<Rightarrow> (int \<times> int) list \<Rightarrow> py_error + int \<times> int list" where
  "interactions cells_count neigh_cells acc interactions_cumsum [] =
     Inr (acc, interactions_cumsum)"
| "interactions cells_count neigh_cells acc interactions_cumsum ((i, cnt) # rest) =
     (if cnt = 0 then interactions cells_count neigh_cells acc interactions_cumsum rest
      else
        bind (cross_interactions cells_count i cnt (acc + (cnt - 1) ^ 2) neigh_cells)
          (\<lambda>acc'.
        bind (setitem interactions_cumsum i acc') (\<lambda>interactions_cumsum'.
          interactions cells_count neigh_cells acc' interactions_cumsum' rest)))"

text \<open>The \<^verbatim>\<open>while part_index < n\<close> loop.\<close>

function split_loop ::
  "int \<Rightarrow> int list \<Rightarrow> int \<Rightarrow> int list \<Rightarrow> int \<Rightarrow> int \<Rightarrow> py_error + int list" where
  "split_loop n interactions_cumsum sz splits part_index i =
     (if part_index < n then
        (case getitem interactions_cumsum i of
           Inl e \<Rightarrow> Inl e
         | Inr v \<Rightarrow>
             if v \<ge> part_index * sz then
               (case setitem splits part_index i of
                  Inl e \<Rightarrow> Inl e
                | Inr splits' \<Rightarrow>
                    split_loop n interactions_cumsum sz splits' (part_index + 1) (i + 1))
             else split_loop n interactions_cumsum sz splits part_index (i + 1))
      else Inr splits)"
  by pat_completeness auto
termination
proof (relation "measure (\<lambda>(n, cs, sz, splits, part_index, i). nat (int (length cs) - i))")
  show "wf (measure (\<lambda>(n, cs, sz, splits, part_index, i). nat (int (length cs) - i)))"
    by simp
next
  fix n :: int and cs :: "int list" and sz :: int and splits :: "int list"
    and part_index i v :: int and splits' :: "int list"
  assume "getitem cs i = Inr v"
  then have "i < int (length cs)"
    by (auto simp: getitem_def py_index_def split: if_splits)
  then show "((n, cs, sz, splits', part_index + 1, i + 1), (n, cs, sz, splits, part_index, i))
      \<in> measure (\<lambda>(n, cs, sz, splits, part_index, i). nat (int (length cs) - i))"
    by simp
next
  fix n :: int and cs :: "int list" and sz :: int and splits :: "int list"
    and part_index i v :: int
  assume "getitem cs i = Inr v"
  then have "i < int (length cs)"
    by (auto simp: getitem_def py_index_def split: if_splits)
  then show "((n, cs, sz, splits, part_index, i + 1), (n, cs, sz, splits, part_index, i))
      \<in> measure (\<lambda>(n, cs, sz, splits, part_index, i). nat (int (length cs) - i))"
    by simp
qed

text \<open>
  \<open>uninit\<close> is the content of the array that \<^verbatim>\<open>np.empty_like(cells_count)\<close> returns, of the
  length of \<^verbatim>\<open>cells_count\<close>. Every entry of \<^verbatim>\<open>splits\<close> is written before it is returned.
\<close>

definition partition_cells :: "int \<Rightarrow> int list \<Rightarrow> int list \<Rightarrow> int list \<Rightarrow> py_error + int list" where
  "partition_cells n cells_count neigh_cells uninit =
     (if \<not> n > 0 then Inl AssertionError
      else
        bind (interactions cells_count neigh_cells 0 uninit (enumerate_int cells_count))
          (\<lambda>(interactions_total, interactions_cumsum).
        let sz = \<lceil>real_of_int interactions_total / real_of_int n\<rceil> in
        bind (setitem (np_empty (nat (n + 1))) 0 0) (\<lambda>splits0.
        bind (setitem splits0 (- 1) (int (length cells_count))) (\<lambda>splits1.
          split_loop n interactions_cumsum sz splits1 1 0))))"

text \<open>
  The cost model of \<open>interactions\<close>, cell by cell: the amount by which the pass over cell i
  raises \<^verbatim>\<open>interactions_total\<close> (nothing for a cell with no point), and the cost of a list of
  cells.
\<close>

definition cell_cost :: "int list \<Rightarrow> int list \<Rightarrow> int \<Rightarrow> py_error + int" where
  "cell_cost cells_count neigh_cells i =
     bind (getitem cells_count i) (\<lambda>cnt.
       if cnt = 0 then Inr 0
       else cross_interactions cells_count i cnt ((cnt - 1) ^ 2) neigh_cells)"

fun range_cost :: "int list \<Rightarrow> int list \<Rightarrow> int list \<Rightarrow> py_error + int" where
  "range_cost cells_count neigh_cells [] = Inr 0"
| "range_cost cells_count neigh_cells (i # rest) =
     bind (cell_cost cells_count neigh_cells i) (\<lambda>a.
     bind (range_cost cells_count neigh_cells rest) (\<lambda>b. Inr (a + b)))"

text \<open>
  Two ranges \<open>[0, b)\<close> and \<open>[b, len)\<close> are balanced within one cell's cost when some cell costs
  at least the difference of the costs of the two ranges.
\<close>

definition balanced_within_cell :: "int list \<Rightarrow> int list \<Rightarrow> int \<Rightarrow> bool" where
  "balanced_within_cell cells_count neigh_cells b =
     (case (range_cost cells_count neigh_cells [0..b - 1],
            range_cost cells_count neigh_cells [b..int (length cells_count) - 1]) of
        (Inr x, Inr y) \<Rightarrow>
          list_ex (\<lambda>i. case cell_cost cells_count neigh_cells i of
                          Inr c \<Rightarrow> \<bar>x - y\<bar> \<le> c | Inl _ \<Rightarrow> False)
                  [0..int (length cells_count) - 1]
      | _ \<Rightarrow> False)"

subsection \<open>Notions used in the statements and the proofs\<close>

text \<open>The result of the flattening loop on a non-empty tuple.\<close>

definition flat :: "int list \<Rightarrow> int list \<Rightarrow> int" where
  "flat shape v = foldl (\<lambda>l (i, n). l * n + i) (hd v) (zip (tl v) (tl shape))"

text \<open>A tuple of coordinates that lies in the grid: one entry per dimension, each from 0 to below the extent.\<close>

definition in_grid :: "int list \<Rightarrow> int list \<Rightarrow> bool" where
  "in_grid shape v \<longleftrightarrow> length v = length shape \<and> (\<forall>j<length shape. 0 \<le> v ! j \<and> v ! j < shape ! j)"

text \<open>
  The extents of the grid in exact arithmetic: for every dimension the difference of the
  largest and the least cell coordinate, plus 3.
\<close>

definition extents :: "real \<Rightarrow> real list list \<Rightarrow> int list" where
  "extents cell_size rows =
     map2 (\<lambda>mx mn. mx - mn + 3) (x_max cell_size rows) (x_min cell_size rows)"

text \<open>A non-empty 2-dimensional array with D columns: at least one row, at least one column, all rows of length D.\<close>

definition valid_points :: "nat \<Rightarrow> real list list \<Rightarrow> bool" where
  "valid_points D rows \<longleftrightarrow> rows \<noteq> [] \<and> 0 < D \<and> (\<forall>r\<in>set rows. length r = D)"

text \<open>The normalised cell coordinates of a row and the cell ids of all rows, in exact arithmetic.\<close>

definition coords :: "real \<Rightarrow> real list list \<Rightarrow> real list \<Rightarrow> int list" where
  "coords cell_size rows r =
     map2 (\<lambda>x m. x - m + 1) (cell_row cell_size r) (x_min cell_size rows)"

definition cell_ids :: "real \<Rightarrow> real list list \<Rightarrow> int list" where
  "cell_ids cell_size rows =
     map (\<lambda>r. flat (extents cell_size rows) (coords cell_size rows r)) rows"

text \<open>The exclusive prefix sum of the counts: where the block of cell c starts.\<close>

definition start :: "int list \<Rightarrow> nat \<Rightarrow> int" where
  "start cc c = sum_list (take c cc)"

text \<open>The points of cell c among the first k points, in input order.\<close>

definition pts :: "int list \<Rightarrow> nat \<Rightarrow> nat \<Rightarrow> nat list" where
  "pts cells c k = filter (\<lambda>i. cells ! i = int c) [0..<k]"

text \<open>The counts are those of the cell ids, and every cell id is an index of the count array.\<close>

definition counted :: "int list \<Rightarrow> int list \<Rightarrow> bool" where
  "counted cells cc \<longleftrightarrow>
     (\<forall>l\<in>set cells. 0 \<le> l \<and> l < int (length cc)) \<and>
     (\<forall>c<length cc. cc ! c = int (count_list cells (int c)))"

text \<open>The invariant of the placement loop after k points: the offset of every cell has gone down by the number of its points placed so far, and the m-th of them stands m slots below the end of the block of the cell.\<close>

definition place_inv :: "int list \<Rightarrow> int list \<Rightarrow> nat \<Rightarrow> int list \<Rightarrow> int list \<Rightarrow> bool" where
  "place_inv cells cc k p co \<longleftrightarrow>
     length p = length cells \<and> length co = length cc \<and>
     (\<forall>c<length cc. co ! c = start cc (Suc c) - int (length (pts cells c k))) \<and>
     (\<forall>c<length cc. \<forall>m<length (pts cells c k).
        p ! nat (start cc (Suc c) - 1 - int m) = int (pts cells c k ! m))"

text \<open>The indices of the points of cell c, last one first.\<close>

definition block :: "int list \<Rightarrow> int \<Rightarrow> int list" where
  "block cells c = rev (map int (filter (\<lambda>i. cells ! i = c) [0..<length cells]))"

text \<open>The tuples of the product for radius 1.\<close>

definition deltas :: "nat \<Rightarrow> int list set" where
  "deltas d = {t. length t = d \<and> (\<forall>j<d. - 1 \<le> t ! j \<and> t ! j \<le> 1)}"

text \<open>The pairs the enumeration yields at cell c.\<close>

definition emitted :: "int list \<Rightarrow> int list \<Rightarrow> int \<Rightarrow> (int \<times> int) list" where
  "emitted cells offs c =
     intra_pairs (block cells c)
     @ concat (map (\<lambda>off. cross_pairs (block cells c) (block cells (c + off))) offs)"

text \<open>A yielded pair \<open>(i, j)\<close> read as the unordered pair \<open>{i, j}\<close>.\<close>

definition upair :: "int \<times> int \<Rightarrow> int set" where
  "upair ij = {fst ij, snd ij}"

text \<open>The Chebyshev distance of two cells: the largest difference of their coordinates over the dimensions.\<close>

definition chebyshev :: "int list \<Rightarrow> int list \<Rightarrow> int" where
  "chebyshev a b = foldr max (map2 (\<lambda>x y. \<bar>x - y\<bar>) a b) 0"

text \<open>
  The grid fits the 64-bit integers: the product of the exact extents is below \<open>2 ^ 63\<close>.
\<close>

definition fits :: "real \<Rightarrow> real list list \<Rightarrow> bool" where
  "fits cell_size rows \<longleftrightarrow> prod_list (extents cell_size rows) < 2 ^ 63"


text \<open>
  The strides of a grid shape, each the product of the extents of the later dimensions, and
  the mixed-radix value of a tuple: the sum of its entries, each times its stride.
\<close>

definition strides :: "int list \<Rightarrow> int list" where
  "strides shape = map (\<lambda>j. prod_list (drop (Suc j) shape)) [0..<length shape]"

definition mixed_radix :: "int list \<Rightarrow> int list \<Rightarrow> int" where
  "mixed_radix shape t = sum_list (map2 (*) t (strides shape))"

text \<open>A tuple of d entries, each of absolute value at most r: a tuple of the product \<open>{-r..r} ^ d\<close>.\<close>

definition small_tuple :: "int \<Rightarrow> nat \<Rightarrow> int list \<Rightarrow> bool" where
  "small_tuple r d t \<longleftrightarrow> length t = d \<and> (\<forall>x\<in>set t. \<bar>x\<bar> \<le> r)"

section \<open>Auxiliary lemmas\<close>

lemma bind_Inr [simp]: "bind (Inr v) f = f v"
  by (simp add: bind_def)

lemma bind_Inl [simp]: "bind (Inl e) f = Inl e"
  by (simp add: bind_def)

lemma getitem_int: "0 \<le> i \<Longrightarrow> i < int (length xs) \<Longrightarrow> getitem xs i = Inr (xs ! nat i)"
  by (simp add: getitem_def py_index_def)

lemma setitem_int: "0 \<le> i \<Longrightarrow> i < int (length xs) \<Longrightarrow> setitem xs i v = Inr (xs[nat i := v])"
  by (simp add: setitem_def py_index_def)

lemma length_cell_row [simp]: "length (cell_row c r) = length r"
  by (simp add: cell_row_def)

lemma update_min_nth:
  "length a = D \<Longrightarrow> length x = D \<Longrightarrow>
   length (update_min a x) = D \<and> (\<forall>j<D. update_min a x ! j = min (x ! j) (a ! j))"
  by (auto simp: update_min_def min_def)

lemma update_max_nth:
  "length a = D \<Longrightarrow> length x = D \<Longrightarrow>
   length (update_max a x) = D \<and> (\<forall>j<D. update_max a x ! j = max (x ! j) (a ! j))"
  by (auto simp: update_max_def max_def)

lemma foldl_update_min:
  "length a = D \<Longrightarrow> \<forall>x\<in>set xss. length x = D \<Longrightarrow>
   length (foldl update_min a xss) = D \<and>
   (\<forall>j<D. foldl update_min a xss ! j \<le> a ! j \<and> (\<forall>x\<in>set xss. foldl update_min a xss ! j \<le> x ! j))"
proof (induction xss arbitrary: a)
  case Nil
  then show ?case by simp
next
  case (Cons x xss)
  have u: "length (update_min a x) = D" "\<forall>j<D. update_min a x ! j = min (x ! j) (a ! j)"
    using update_min_nth [of a D x] Cons.prems by auto
  have ih: "length (foldl update_min (update_min a x) xss) = D \<and>
     (\<forall>j<D. foldl update_min (update_min a x) xss ! j \<le> update_min a x ! j \<and>
        (\<forall>y\<in>set xss. foldl update_min (update_min a x) xss ! j \<le> y ! j))"
    using Cons.IH [OF u(1)] Cons.prems(2) by simp
  show ?case
    using ih u(2) by (auto simp: min_def split: if_splits)
qed

lemma foldl_update_max:
  "length a = D \<Longrightarrow> \<forall>x\<in>set xss. length x = D \<Longrightarrow>
   length (foldl update_max a xss) = D \<and>
   (\<forall>j<D. a ! j \<le> foldl update_max a xss ! j \<and> (\<forall>x\<in>set xss. x ! j \<le> foldl update_max a xss ! j))"
proof (induction xss arbitrary: a)
  case Nil
  then show ?case by simp
next
  case (Cons x xss)
  have u: "length (update_max a x) = D" "\<forall>j<D. update_max a x ! j = max (x ! j) (a ! j)"
    using update_max_nth [of a D x] Cons.prems by auto
  have ih: "length (foldl update_max (update_max a x) xss) = D \<and>
     (\<forall>j<D. update_max a x ! j \<le> foldl update_max (update_max a x) xss ! j \<and>
        (\<forall>y\<in>set xss. y ! j \<le> foldl update_max (update_max a x) xss ! j))"
    using Cons.IH [OF u(1)] Cons.prems(2) by simp
  show ?case
    using ih u(2) by (auto simp: max_def split: if_splits)
qed

lemma horner_bound:
  "length vs = length ns \<Longrightarrow> \<forall>(i, n)\<in>set (zip vs ns). 0 \<le> i \<and> i < n \<Longrightarrow>
   0 \<le> l \<Longrightarrow> l < P \<Longrightarrow>
   0 \<le> foldl (\<lambda>l (i, n). l * n + i) (l :: int) (zip vs ns) \<and>
   foldl (\<lambda>l (i, n). l * n + i) l (zip vs ns) < P * prod_list ns"
proof (induction vs ns arbitrary: l P rule: list_induct2)
  case Nil
  then show ?case by simp
next
  case (Cons v vs n ns)
  from Cons.prems have vn: "0 \<le> v" "v < n" by auto
  have lo: "0 \<le> l * n + v" using Cons.prems(2) vn by simp
  have "l * n \<le> (P - 1) * n"
    using Cons.prems(3) vn by (intro mult_right_mono) auto
  then have hi: "l * n + v < P * n" using vn by (simp add: algebra_simps)
  have "\<forall>(i, n)\<in>set (zip vs ns). 0 \<le> i \<and> i < n" using Cons.prems(1) by simp
  from Cons.IH [OF this lo hi] show ?case by (simp add: mult.assoc)
qed

lemma horner_add:
  "length vs = length ws \<Longrightarrow> length ws = length ns \<Longrightarrow>
   foldl (\<lambda>l (i, n). l * n + i) (l + m :: int) (zip (map2 (+) vs ws) ns) =
   foldl (\<lambda>l (i, n). l * n + i) l (zip vs ns) + foldl (\<lambda>l (i, n). l * n + i) m (zip ws ns)"
proof (induction vs ws ns arbitrary: l m rule: list_induct3)
  case Nil
  then show ?case by simp
next
  case (Cons v vs w ws n ns)
  have e: "(l + m) * n + (v + w) = (l * n + v) + (m * n + w)" by (simp add: algebra_simps)
  have "foldl (\<lambda>l (i, n). l * n + i) (l + m) (zip (map2 (+) (v # vs) (w # ws)) (n # ns)) =
        foldl (\<lambda>l (i, n). l * n + i) ((l + m) * n + (v + w)) (zip (map2 (+) vs ws) ns)"
    by simp
  also have "\<dots> = foldl (\<lambda>l (i, n). l * n + i) ((l * n + v) + (m * n + w)) (zip (map2 (+) vs ws) ns)"
    by (simp only: e)
  also have "\<dots> = foldl (\<lambda>l (i, n). l * n + i) (l * n + v) (zip vs ns)
                 + foldl (\<lambda>l (i, n). l * n + i) (m * n + w) (zip ws ns)"
    by (rule Cons.IH)
  finally show ?case by simp
qed

lemma horner_step_inj:
  fixes l m v w n :: int
  assumes "0 \<le> v" "v < n" "0 \<le> w" "w < n" "l * n + v = m * n + w"
  shows "l = m \<and> v = w"
proof -
  have a: "(l * n + v) div n = l" and b: "(m * n + w) div n = m"
    using assms(1-4) by simp_all
  have "(l * n + v) div n = (m * n + w) div n" by (simp only: assms(5))
  then have "l = m" by (simp only: a b)
  with assms(5) show ?thesis by simp
qed

lemma horner_inj:
  "length vs = length ws \<Longrightarrow> length ws = length ns \<Longrightarrow>
   \<forall>(i, n)\<in>set (zip vs ns). 0 \<le> i \<and> i < n \<Longrightarrow>
   \<forall>(i, n)\<in>set (zip ws ns). 0 \<le> i \<and> i < n \<Longrightarrow>
   foldl (\<lambda>l (i, n). l * n + i) (l :: int) (zip vs ns) = foldl (\<lambda>l (i, n). l * n + i) m (zip ws ns) \<Longrightarrow>
   l = m \<and> vs = ws"
proof (induction vs ws ns arbitrary: l m rule: list_induct3)
  case Nil
  then show ?case by simp
next
  case (Cons v vs w ws n ns)
  from Cons.prems have r: "0 \<le> v" "v < n" "0 \<le> w" "w < n" by auto
  have "l * n + v = m * n + w \<and> vs = ws"
    using Cons.IH [of "l * n + v" "m * n + w"] Cons.prems by simp
  with horner_step_inj [OF r] show ?case by blast
qed

lemma in_grid_zip:
  assumes "in_grid shape v"
  shows "\<forall>(i, n)\<in>set (zip (tl v) (tl shape)). 0 \<le> i \<and> i < n"
proof -
  { fix i n assume "(i, n) \<in> set (zip (tl v) (tl shape))"
    then obtain k where k: "k < length (tl v)" "k < length (tl shape)" "tl v ! k = i" "tl shape ! k = n"
      by (auto simp: set_zip)
    then have "Suc k < length shape" by simp
    moreover have "v ! Suc k = i" "shape ! Suc k = n" using k by (simp_all add: nth_tl)
    ultimately have "0 \<le> i \<and> i < n" using assms by (auto simp: in_grid_def) }
  then show ?thesis by auto
qed

lemma flat_bound:
  assumes "in_grid shape v" "shape \<noteq> []"
  shows "0 \<le> flat shape v \<and> flat shape v < prod_list shape"
proof -
  from assms obtain n ns where s: "shape = n # ns" by (cases shape) auto
  from assms s obtain x xs where v: "v = x # xs" by (cases v) (auto simp: in_grid_def)
  have x: "0 \<le> x" "x < n" using assms(1) s v by (auto simp: in_grid_def)
  have len: "length xs = length ns" using assms(1) s v by (simp add: in_grid_def)
  have z: "\<forall>(i, n)\<in>set (zip xs ns). 0 \<le> i \<and> i < n" using in_grid_zip [OF assms(1)] s v by simp
  from horner_bound [OF len z x] show ?thesis by (simp add: flat_def s v)
qed

lemma flat_add:
  assumes "length v = length shape" "length w = length shape" "shape \<noteq> []"
  shows "flat shape (map2 (+) v w) = flat shape v + flat shape w"
proof -
  from assms obtain n ns where s: "shape = n # ns" by (cases shape) auto
  from assms s obtain x xs where v: "v = x # xs" by (cases v) auto
  from assms s obtain y ys where w: "w = y # ys" by (cases w) auto
  have "length xs = length ys" "length ys = length ns" using assms s v w by simp_all
  from horner_add [OF this] show ?thesis by (simp add: flat_def s v w)
qed

lemma flat_inj:
  assumes "in_grid shape v" "in_grid shape w" "shape \<noteq> []" "flat shape v = flat shape w"
  shows "v = w"
proof -
  from assms obtain n ns where s: "shape = n # ns" by (cases shape) auto
  from assms s obtain x xs where v: "v = x # xs" by (cases v) (auto simp: in_grid_def)
  from assms s obtain y ys where w: "w = y # ys" by (cases w) (auto simp: in_grid_def)
  have len: "length xs = length ys" "length ys = length ns"
    using assms s v w by (simp_all add: in_grid_def)
  have z: "\<forall>(i, n)\<in>set (zip xs ns). 0 \<le> i \<and> i < n" "\<forall>(i, n)\<in>set (zip ys ns). 0 \<le> i \<and> i < n"
    using in_grid_zip [OF assms(1)] in_grid_zip [OF assms(2)] s v w by simp_all
  have "foldl (\<lambda>l (i, n). l * n + i) x (zip xs ns) = foldl (\<lambda>l (i, n). l * n + i) y (zip ys ns)"
    using assms(4) by (simp add: flat_def s v w)
  from horner_inj [OF len z this] show ?thesis by (simp add: v w)
qed

lemma x_min_props:
  assumes "valid_points D rows"
  shows "length (x_min c rows) = D"
    and "r \<in> set rows \<Longrightarrow> j < D \<Longrightarrow> x_min c rows ! j \<le> cell_row c r ! j"
proof -
  from assms obtain r0 rs where rows: "rows = r0 # rs" by (cases rows) (auto simp: valid_points_def)
  have a: "length (cell_row c r0) = D" using assms rows by (simp add: valid_points_def)
  have b: "\<forall>x\<in>set (map (cell_row c) rs). length x = D"
    using assms rows by (auto simp: valid_points_def)
  note f = foldl_update_min [OF a b]
  show "length (x_min c rows) = D" using f by (simp add: x_min_def rows)
  show "x_min c rows ! j \<le> cell_row c r ! j" if "r \<in> set rows" "j < D"
    using f that by (auto simp: x_min_def rows)
qed

lemma x_max_props:
  assumes "valid_points D rows"
  shows "length (x_max c rows) = D"
    and "r \<in> set rows \<Longrightarrow> j < D \<Longrightarrow> cell_row c r ! j \<le> x_max c rows ! j"
proof -
  from assms obtain r0 rs where rows: "rows = r0 # rs" by (cases rows) (auto simp: valid_points_def)
  have a: "length (cell_row c r0) = D" using assms rows by (simp add: valid_points_def)
  have b: "\<forall>x\<in>set (map (cell_row c) rs). length x = D"
    using assms rows by (auto simp: valid_points_def)
  note f = foldl_update_max [OF a b]
  show "length (x_max c rows) = D" using f by (simp add: x_max_def rows)
  show "cell_row c r ! j \<le> x_max c rows ! j" if "r \<in> set rows" "j < D"
    using f that by (auto simp: x_max_def rows)
qed

lemma extents_props:
  assumes "valid_points D rows"
  shows "length (extents c rows) = D"
    and "j < D \<Longrightarrow> extents c rows ! j = x_max c rows ! j - x_min c rows ! j + 3"
  using x_min_props(1) [OF assms, of c] x_max_props(1) [OF assms, of c]
  by (simp_all add: extents_def)

lemma coords_props:
  assumes "valid_points D rows" "r \<in> set rows"
  shows "length (coords c rows r) = D"
    and "j < D \<Longrightarrow> coords c rows r ! j = cell_row c r ! j - x_min c rows ! j + 1"
    and "j < D \<Longrightarrow> 1 \<le> coords c rows r ! j"
    and "j < D \<Longrightarrow> coords c rows r ! j \<le> extents c rows ! j - 2"
proof -
  have lr: "length (cell_row c r) = D" using assms by (simp add: valid_points_def)
  note lm = x_min_props(1) [OF assms(1), of c]
  show "length (coords c rows r) = D" using lr lm by (simp add: coords_def)
  show e: "coords c rows r ! j = cell_row c r ! j - x_min c rows ! j + 1" if "j < D" for j
    using lr lm that by (simp add: coords_def)
  show "1 \<le> coords c rows r ! j" if "j < D"
    using e [OF that] x_min_props(2) [OF assms that, of c] by simp
  show "coords c rows r ! j \<le> extents c rows ! j - 2" if "j < D"
    using e [OF that] x_max_props(2) [OF assms that, of c] extents_props(2) [OF assms(1) that, of c]
    by simp
qed

lemma extents_ge3:
  assumes "valid_points D rows" "j < D"
  shows "3 \<le> extents c rows ! j"
proof -
  from assms obtain r where r: "r \<in> set rows" by (cases rows) (auto simp: valid_points_def)
  from coords_props(3,4) [OF assms(1) r assms(2), of c] show ?thesis by simp
qed

lemma coords_in_grid:
  assumes "valid_points D rows" "r \<in> set rows"
  shows "in_grid (extents c rows) (coords c rows r)"
proof -
  have l: "length (coords c rows r) = length (extents c rows)"
    using coords_props(1) [OF assms, of c] extents_props(1) [OF assms(1), of c] by simp
  have "0 \<le> coords c rows r ! j \<and> coords c rows r ! j < extents c rows ! j"
    if "j < length (extents c rows)" for j
  proof -
    have j: "j < D" using that extents_props(1) [OF assms(1), of c] by simp
    from coords_props(3) [OF assms j, of c] coords_props(4) [OF assms j, of c]
    show ?thesis by simp
  qed
  with l show ?thesis by (simp add: in_grid_def)
qed

lemma extents_nonempty:
  "valid_points D rows \<Longrightarrow> extents c rows \<noteq> []"
  using extents_props(1) [of D rows c] by (auto simp: valid_points_def)

lemma cell_ids_range:
  assumes "valid_points D rows" "l \<in> set (cell_ids c rows)"
  shows "0 \<le> l \<and> l < prod_list (extents c rows)"
proof -
  from assms(2) obtain r where r: "r \<in> set rows" "l = flat (extents c rows) (coords c rows r)"
    by (auto simp: cell_ids_def)
  from flat_bound [OF coords_in_grid [OF assms(1) r(1)] extents_nonempty [OF assms(1)]] r(2)
  show ?thesis by simp
qed

lemma count_cells_ok:
  "\<forall>l\<in>set cells. 0 \<le> l \<and> l < int (length cc) \<Longrightarrow>
   \<exists>cc'. count_cells cc cells = Inr cc' \<and> length cc' = length cc \<and>
         (\<forall>c<length cc. cc' ! c = cc ! c + int (count_list cells (int c)))"
proof (induction cells arbitrary: cc)
  case Nil
  then show ?case by simp
next
  case (Cons l ls)
  from Cons.prems have l: "0 \<le> l" "l < int (length cc)" by auto
  let ?cc1 = "cc[nat l := cc ! nat l + 1]"
  have step: "count_cells cc (l # ls) = count_cells ?cc1 ls"
    using l by (simp add: getitem_int setitem_int)
  have "\<forall>l\<in>set ls. 0 \<le> l \<and> l < int (length ?cc1)" using Cons.prems by simp
  from Cons.IH [OF this] obtain cc' where cc':
    "count_cells ?cc1 ls = Inr cc'" "length cc' = length cc"
    "\<forall>c<length cc. cc' ! c = ?cc1 ! c + int (count_list ls (int c))"
    by auto
  have "cc' ! c = cc ! c + int (count_list (l # ls) (int c))" if "c < length cc" for c
    using cc'(3) that l by (cases "c = nat l") auto
  with step cc'(1,2) show ?case by simp
qed

lemma count_list_pts: "count_list cells (int c) = length (pts cells c (length cells))"
proof -
  have "count_list cells (int c) = length (filter ((=) (int c)) cells)"
    by (simp add: count_list_eq_length_filter)
  also have "\<dots> = card {i. i < length cells \<and> int c = cells ! i}"
    by (simp add: length_filter_conv_card)
  also have "\<dots> = card {i. i < length [0..<length cells] \<and> cells ! ([0..<length cells] ! i) = int c}"
    by (rule arg_cong [where f = card]) auto
  also have "\<dots> = length (pts cells c (length cells))"
    unfolding pts_def by (simp only: length_filter_conv_card)
  finally show ?thesis .
qed

lemma pts_Suc:
  "pts cells c (Suc k) = (if cells ! k = int c then pts cells c k @ [k] else pts cells c k)"
  by (simp add: pts_def)

lemma length_pts_mono: "k \<le> k' \<Longrightarrow> length (pts cells c k) \<le> length (pts cells c k')"
proof (induction k' rule: nat_induct_at_least)
  case base
  then show ?case by simp
next
  case (Suc n)
  then show ?case by (simp add: pts_Suc)
qed

lemma length_cumsum_from [simp]: "length (cumsum_from a xs) = length xs"
  by (induction xs arbitrary: a) simp_all

lemma cumsum_from_nth:
  "k < length xs \<Longrightarrow> cumsum_from a xs ! k = a + sum_list (take (Suc k) xs)"
proof (induction xs arbitrary: a k)
  case Nil
  then show ?case by simp
next
  case (Cons x xs)
  then show ?case by (cases k) simp_all
qed

lemma cumsum_nth: "c < length cc \<Longrightarrow> cumsum cc ! c = start cc (Suc c)"
  by (simp add: cumsum_def start_def cumsum_from_nth)

lemma start_Suc: "c < length cc \<Longrightarrow> start cc (Suc c) = start cc c + cc ! c"
  by (simp add: start_def take_Suc_conv_app_nth)

lemma start_0 [simp]: "start cc 0 = 0"
  by (simp add: start_def)

lemma start_mono:
  assumes "\<forall>x\<in>set cc. 0 \<le> x" "c \<le> c'"
  shows "start cc c \<le> start cc c'"
proof -
  have "take c' cc = take c cc @ take (c' - c) (drop c cc)"
    using assms(2) by (metis le_add_diff_inverse take_add)
  moreover have "0 \<le> sum_list (take (c' - c) (drop c cc))"
    using assms(1) by (intro sum_list_nonneg) (auto dest!: in_set_takeD in_set_dropD)
  ultimately show ?thesis by (simp add: start_def)
qed

lemma start_le_total:
  assumes "\<forall>x\<in>set cc. 0 \<le> x"
  shows "start cc c \<le> sum_list cc"
proof -
  have "start cc c \<le> start cc (max c (length cc))" using assms by (intro start_mono) auto
  then show ?thesis by (simp add: start_def)
qed

lemma start_nonneg: "\<forall>x\<in>set cc. 0 \<le> x \<Longrightarrow> 0 \<le> start cc c"
  using start_mono [of cc 0 c] by simp

text \<open>Sum of the counts: every cell id is in range, so the counts add up to the number of points.\<close>

lemma sum_counts:
  "\<forall>l\<in>set cells. 0 \<le> l \<and> l < int G \<Longrightarrow>
   (\<Sum>c<G. int (count_list cells (int c))) = int (length cells)"
proof (induction cells)
  case Nil
  then show ?case by simp
next
  case (Cons l ls)
  from Cons.prems have l: "0 \<le> l" "l < int G" by auto
  have "(\<Sum>c<G. int (count_list (l # ls) (int c))) =
        (\<Sum>c<G. int (count_list ls (int c)) + (if c = nat l then 1 else 0))"
    using l by (intro sum.cong) auto
  also have "\<dots> = (\<Sum>c<G. int (count_list ls (int c))) + (\<Sum>c<G. if c = nat l then 1 else 0)"
    by (simp add: sum.distrib)
  also have "(\<Sum>c<G. if c = nat l then 1 else 0) = (1 :: int)"
    using l by simp
  finally show ?case using Cons by simp
qed

lemma counted_nonneg: "counted cells cc \<Longrightarrow> \<forall>x\<in>set cc. 0 \<le> x"
  by (auto simp: counted_def in_set_conv_nth)

lemma counted_pts: "counted cells cc \<Longrightarrow> c < length cc \<Longrightarrow> cc ! c = int (length (pts cells c (length cells)))"
  by (simp add: counted_def count_list_pts)

lemma counted_total:
  assumes "counted cells cc"
  shows "sum_list cc = int (length cells)"
proof -
  have "sum_list cc = (\<Sum>c<length cc. cc ! c)"
    by (simp add: sum_list_sum_nth atLeast0LessThan)
  also have "\<dots> = (\<Sum>c<length cc. int (count_list cells (int c)))"
    using assms by (intro sum.cong) (auto simp: counted_def)
  also have "\<dots> = int (length cells)"
    using assms by (intro sum_counts) (auto simp: counted_def)
  finally show ?thesis .
qed

text \<open>The slot of the m-th point of cell c lies in the block of c.\<close>

lemma slot_range:
  assumes "counted cells cc" "c < length cc" "int m < cc ! c"
  shows "start cc c \<le> start cc (Suc c) - 1 - int m"
    and "start cc (Suc c) - 1 - int m < start cc (Suc c)"
    and "0 \<le> start cc (Suc c) - 1 - int m"
    and "start cc (Suc c) - 1 - int m < int (length cells)"
proof -
  note nn = counted_nonneg [OF assms(1)]
  show a: "start cc c \<le> start cc (Suc c) - 1 - int m"
    using assms(2,3) by (simp add: start_Suc)
  show b: "start cc (Suc c) - 1 - int m < start cc (Suc c)" by simp
  show "0 \<le> start cc (Suc c) - 1 - int m" using a start_nonneg [OF nn, of c] by simp
  show "start cc (Suc c) - 1 - int m < int (length cells)"
    using b start_le_total [OF nn, of "Suc c"] counted_total [OF assms(1)] by simp
qed

lemma slot_inj:
  assumes "counted cells cc" "c < length cc" "c' < length cc"
    "int m < cc ! c" "int m' < cc ! c'"
    "start cc (Suc c) - 1 - int m = start cc (Suc c') - 1 - int m'"
  shows "c = c' \<and> m = m'"
proof -
  note nn = counted_nonneg [OF assms(1)]
  have "c = c'"
  proof (rule ccontr)
    assume ne: "c \<noteq> c'"
    show False
    proof (cases "c < c'")
      case True
      then have "start cc (Suc c) \<le> start cc c'" using nn by (intro start_mono) auto
      with slot_range(1) [OF assms(1,3,5)] assms(6) show False by simp
    next
      case False
      with ne have "c' < c" by simp
      then have "start cc (Suc c') \<le> start cc c" using nn by (intro start_mono) auto
      with slot_range(1) [OF assms(1,2,4)] assms(6) show False by simp
    qed
  qed
  with assms(6) show ?thesis by simp
qed

lemma enumerate_int_drop:
  "k < length xs \<Longrightarrow>
   drop k (enumerate_int xs) = (int k, xs ! k) # drop (Suc k) (enumerate_int xs)"
  by (simp add: enumerate_int_def Cons_nth_drop_Suc [symmetric])

lemma place_step:
  assumes cnt: "counted cells cc" and k: "k < length cells" and inv: "place_inv cells cc k p co"
  shows "\<exists>p' co'. place p co ((int k, cells ! k) # rest) = place p' co' rest
                 \<and> place_inv cells cc (Suc k) p' co'"
proof -
  let ?N = "length cells" and ?G = "length cc"
  define c where "c = nat (cells ! k)"
  have lk: "0 \<le> cells ! k" "cells ! k < int ?G"
    using cnt k by (auto simp: counted_def)
  then have c: "c < ?G" "cells ! k = int c" by (simp_all add: c_def)
  define n where "n = length (pts cells c k)"
  have psuc: "pts cells c (Suc k) = pts cells c k @ [k]" using c(2) by (simp add: pts_Suc)
  have "length (pts cells c (Suc k)) \<le> length (pts cells c ?N)"
    using k by (intro length_pts_mono) simp
  then have n: "int n < cc ! c" using psuc counted_pts [OF cnt c(1)] by (simp add: n_def)
  from inv have lens: "length p = ?N" "length co = ?G" by (simp_all add: place_inv_def)
  from inv c(1) have off: "co ! c = start cc (Suc c) - int n" by (simp add: place_inv_def n_def)
  define s where "s = start cc (Suc c) - 1 - int n"
  note sr = slot_range [OF cnt c(1) n, folded s_def]
  have off1: "co ! c - 1 = s" using off by (simp add: s_def)
  define p' where "p' = p[nat s := int k]"
  define co' where "co' = co[c := s]"
  have g1: "getitem co (cells ! k) = Inr (co ! c)"
    using c(1) lens by (simp add: c(2) getitem_int)
  have g2: "setitem p (co ! c - 1) (int k) = Inr p'"
    using sr lens by (simp add: off1 setitem_int p'_def)
  have g3: "setitem co (cells ! k) (co ! c - 1) = Inr co'"
    using c(1) lens by (simp add: c(2) off1 setitem_int co'_def)
  have run: "place p co ((int k, cells ! k) # rest) = place p' co' rest"
    by (simp add: g1 g2 g3)
  have i1: "co' ! d = start cc (Suc d) - int (length (pts cells d (Suc k)))" if d: "d < ?G" for d
  proof (cases "d = c")
    case True
    then show ?thesis using lens c(1) psuc by (simp add: co'_def s_def n_def)
  next
    case False
    then have "pts cells d (Suc k) = pts cells d k" using c(2) by (simp add: pts_Suc)
    with False inv d show ?thesis by (simp add: co'_def place_inv_def)
  qed
  have i2: "p' ! nat (start cc (Suc d) - 1 - int m) = int (pts cells d (Suc k) ! m)"
    if d: "d < ?G" and m: "m < length (pts cells d (Suc k))" for d m
  proof (cases "d = c \<and> m = n")
    case True
    then show ?thesis using sr lens psuc by (simp add: p'_def s_def n_def)
  next
    case False
    have "length (pts cells d (Suc k)) \<le> length (pts cells d ?N)"
      using k by (intro length_pts_mono) simp
    with m have md: "int m < cc ! d" using counted_pts [OF cnt d] by simp
    have ne: "start cc (Suc d) - 1 - int m \<noteq> s"
      using slot_inj [OF cnt d c(1) md n] False by (auto simp: s_def)
    have "0 \<le> start cc (Suc d) - 1 - int m" by (rule slot_range(3) [OF cnt d md])
    with ne sr(3) have ne': "nat (start cc (Suc d) - 1 - int m) \<noteq> nat s" by simp
    have old: "m < length (pts cells d k)" "pts cells d (Suc k) ! m = pts cells d k ! m"
      using False m c(2) by (auto simp: pts_Suc n_def nth_append split: if_splits)
    have "p' ! nat (start cc (Suc d) - 1 - int m) = p ! nat (start cc (Suc d) - 1 - int m)"
      using ne' by (simp add: p'_def)
    also have "\<dots> = int (pts cells d k ! m)" using inv d old(1) by (simp add: place_inv_def)
    finally show ?thesis using old(2) by simp
  qed
  have "place_inv cells cc (Suc k) p' co'"
    unfolding place_inv_def using lens i1 i2 by (simp add: p'_def co'_def)
  with run show ?thesis by blast
qed

lemma place_run:
  assumes "counted cells cc"
  shows "k \<le> length cells \<Longrightarrow> place_inv cells cc k p co \<Longrightarrow>
         \<exists>p' co'. place p co (drop k (enumerate_int cells)) = Inr (p', co')
                 \<and> place_inv cells cc (length cells) p' co'"
proof (induction "length cells - k" arbitrary: k p co)
  case 0
  then show ?case by (simp add: enumerate_int_def)
next
  case (Suc d)
  then have k: "k < length cells" by simp
  from place_step [OF assms k Suc.prems(2)] obtain p1 co1 where
    s: "place p co ((int k, cells ! k) # drop (Suc k) (enumerate_int cells)) =
        place p1 co1 (drop (Suc k) (enumerate_int cells))"
    and i: "place_inv cells cc (Suc k) p1 co1" by blast
  have "d = length cells - Suc k" using Suc.hyps(2) by simp
  from Suc.hyps(1) [OF this _ i] k obtain p' co' where
    "place p1 co1 (drop (Suc k) (enumerate_int cells)) = Inr (p', co')"
    "place_inv cells cc (length cells) p' co'" by auto
  with s show ?case by (simp add: enumerate_int_drop [OF k])
qed

lemma length_cumsum [simp]: "length (cumsum cc) = length cc"
  by (simp add: cumsum_def)

lemma place_inv_init:
  assumes "counted cells cc" "length p = length cells"
  shows "place_inv cells cc 0 p (cumsum cc)"
  using assms by (simp add: place_inv_def cumsum_nth pts_def)

lemma block_pts: "block cells (int c) = rev (map int (pts cells c (length cells)))"
  by (simp add: block_def pts_def)

lemma final_offset:
  assumes "counted cells cc" "place_inv cells cc (length cells) p co" "c < length cc"
  shows "co ! c = start cc c"
  using assms counted_pts [OF assms(1,3)] by (simp add: place_inv_def start_Suc)

lemma final_block:
  assumes cnt: "counted cells cc" and inv: "place_inv cells cc (length cells) p co"
    and c: "c < length cc"
  shows "take (nat (cc ! c)) (drop (nat (start cc c)) p) = block cells (int c)"
proof (rule nth_equalityI)
  let ?P = "pts cells c (length cells)"
  note nn = counted_nonneg [OF cnt]
  have n: "cc ! c = int (length ?P)" by (rule counted_pts [OF cnt c])
  have lp: "length p = length cells" using inv by (simp add: place_inv_def)
  have s0: "0 \<le> start cc c" by (rule start_nonneg [OF nn])
  have "start cc (Suc c) \<le> sum_list cc" by (rule start_le_total [OF nn])
  then have hi: "start cc c + cc ! c \<le> int (length p)"
    using counted_total [OF cnt] c lp by (simp add: start_Suc)
  show len: "length (take (nat (cc ! c)) (drop (nat (start cc c)) p)) = length (block cells (int c))"
    using hi s0 n by (simp add: block_pts)
  fix t assume "t < length (take (nat (cc ! c)) (drop (nat (start cc c)) p))"
  then have "t < length (block cells (int c))" unfolding len .
  then have t: "t < length ?P" by (simp add: block_pts)
  define m where "m = length ?P - 1 - t"
  have m: "m < length ?P" "length ?P - Suc t = m" using t by (simp_all add: m_def)
  have e: "start cc (Suc c) - 1 - int m = start cc c + int t"
    using t c n by (simp add: m_def start_Suc)
  have "take (nat (cc ! c)) (drop (nat (start cc c)) p) ! t = p ! (nat (start cc c) + t)"
    using t n hi s0 by simp
  also have "nat (start cc c) + t = nat (start cc (Suc c) - 1 - int m)"
    using s0 by (simp add: e)
  also have "p ! \<dots> = int (?P ! m)" using inv c m(1) by (simp add: place_inv_def)
  also have "\<dots> = block cells (int c) ! t" using t m by (simp add: block_pts rev_nth)
  finally show "take (nat (cc ! c)) (drop (nat (start cc c)) p) ! t = block cells (int c) ! t" .
qed

lemma py_slice_in_range:
  "0 \<le> a \<Longrightarrow> 0 \<le> n \<Longrightarrow> a + n \<le> int (length xs) \<Longrightarrow>
   py_slice xs a (a + n) = take (nat n) (drop (nat a) xs)"
proof -
  assume a: "0 \<le> a" "0 \<le> n" "a + n \<le> int (length xs)"
  then have "nat (a + n) - nat a = nat n" by linarith
  moreover have "clamp_bound (length xs) a = nat a" "clamp_bound (length xs) (a + n) = nat (a + n)"
    using a by (simp_all add: clamp_bound_def min_def)
  ultimately show ?thesis by (simp add: py_slice_def)
qed

lemma final_find:
  assumes cnt: "counted cells cc" and inv: "place_inv cells cc (length cells) p co"
    and c: "0 \<le> c" "c < int (length cc)"
  shows "find_points_in_cell c p cc co = Inr (block cells c)"
    and "0 \<le> co ! nat c" and "0 \<le> cc ! nat c" and "co ! nat c + cc ! nat c \<le> int (length p)"
proof -
  note nn = counted_nonneg [OF cnt]
  have c': "nat c < length cc" using c by simp
  have lens: "length p = length cells" "length co = length cc"
    using inv by (simp_all add: place_inv_def)
  have o: "co ! nat c = start cc (nat c)" by (rule final_offset [OF cnt inv c'])
  show s0: "0 \<le> co ! nat c" using start_nonneg [OF nn] by (simp add: o)
  show n0: "0 \<le> cc ! nat c" using nn c' by simp
  have "start cc (Suc (nat c)) \<le> sum_list cc" by (rule start_le_total [OF nn])
  then show hi: "co ! nat c + cc ! nat c \<le> int (length p)"
    using counted_total [OF cnt] c' lens by (simp add: start_Suc o)
  have "find_points_in_cell c p cc co = Inr (py_slice p (co ! nat c) (co ! nat c + cc ! nat c))"
    using c lens by (simp add: find_points_in_cell_def getitem_int)
  also have "py_slice p (co ! nat c) (co ! nat c + cc ! nat c) =
             take (nat (cc ! nat c)) (drop (nat (co ! nat c)) p)"
    by (rule py_slice_in_range [OF s0 n0 hi])
  also have "\<dots> = block cells c" using final_block [OF cnt inv c'] c(1) by (simp add: o)
  finally show "find_points_in_cell c p cc co = Inr (block cells c)" .
qed

lemma set_block: "set (block cells c) = {int i |i. i < length cells \<and> cells ! i = c}"
  by (auto simp: block_def)

lemma distinct_block: "distinct (block cells c)"
  by (simp add: block_def distinct_map inj_on_def)

lemma length_block: "length (block cells (int c)) = count_list cells (int c)"
  by (simp add: block_pts count_list_pts)


lemma itertools_product_lists: "itertools_product xss = product_lists xss"
  by (induction xss) simp_all

lemma length_itertools_product_replicate:
  "length (itertools_product (replicate d B)) = length B ^ d"
  by (induction d) (simp_all add: length_concat comp_def sum_list_triv)

lemma set_itertools_product_replicate:
  "set (itertools_product (replicate d B)) = {t. length t = d \<and> set t \<subseteq> set B}"
proof (induction d)
  case 0
  then show ?case by auto
next
  case (Suc d)
  show ?case
  proof (intro set_eqI iffI)
    fix t assume "t \<in> set (itertools_product (replicate (Suc d) B))"
    then show "t \<in> {t. length t = Suc d \<and> set t \<subseteq> set B}" using Suc by auto
  next
    fix t assume "t \<in> {t. length t = Suc d \<and> set t \<subseteq> set B}"
    then obtain x xs where "t = x # xs" "length xs = d" "x \<in> set B" "set xs \<subseteq> set B"
      by (cases t) auto
    then show "t \<in> set (itertools_product (replicate (Suc d) B))" using Suc by auto
  qed
qed

lemma distinct_itertools_product_replicate:
  "distinct B \<Longrightarrow> distinct (itertools_product (replicate d B))"
  by (simp add: itertools_product_lists distinct_product_lists)

lemma rev_itertools_product_replicate:
  assumes "rev B = map f B"
  shows "rev (itertools_product (replicate d B)) = map (map f) (itertools_product (replicate d B))"
proof (induction d)
  case 0
  then show ?case by simp
next
  case (Suc d)
  let ?Q = "itertools_product (replicate d B)"
  have "rev (itertools_product (replicate (Suc d) B)) =
        concat (map (\<lambda>x. rev (map ((#) x) ?Q)) (rev B))"
    by (simp add: rev_concat rev_map comp_def)
  also have "\<dots> = concat (map (\<lambda>x. map ((#) x) (map (map f) ?Q)) (map f B))"
  proof -
    have "rev (map ((#) x) ?Q) = map ((#) x) (map (map f) ?Q)" for x
      by (simp only: rev_map Suc)
    then show ?thesis by (simp only: assms)
  qed
  also have "\<dots> = map (map f) (itertools_product (replicate (Suc d) B))"
    by (simp add: map_concat comp_def)
  finally show ?case .
qed

lemma rev_base: "rev (base r) = map uminus (base r)"
proof (rule nth_equalityI)
  show "length (rev (base r)) = length (map uminus (base r))" by simp
next
  fix i assume "i < length (rev (base r))"
  then have i: "i < length (base r)" by simp
  then have i': "int i \<le> 2 * r" by (simp add: base_def)
  have "length (base r) - Suc i = nat (2 * r - int i)" using i by (simp add: base_def)
  then have "rev (base r) ! i = [- r..r] ! nat (2 * r - int i)"
    using i by (simp add: rev_nth base_def)
  also have "\<dots> = r - int i" using i' by simp
  also have "\<dots> = map uminus (base r) ! i" using i i' by (simp add: base_def)
  finally show "rev (base r) ! i = map uminus (base r) ! i" .
qed

lemma distinct_nth_in_drop:
  assumes "distinct P" "i < length P"
  shows "P ! i \<in> set (drop k P) \<longleftrightarrow> k \<le> i"
proof
  assume "P ! i \<in> set (drop k P)"
  then obtain j where j: "j < length (drop k P)" "drop k P ! j = P ! i"
    by (auto simp: in_set_conv_nth)
  then have "P ! (k + j) = P ! i" "k + j < length P" by simp_all
  with assms have "k + j = i" by (simp add: nth_eq_iff_index_eq)
  then show "k \<le> i" by simp
next
  assume "k \<le> i"
  then have "drop k P ! (i - k) = P ! i" "i - k < length (drop k P)" using assms(2) by simp_all
  then show "P ! i \<in> set (drop k P)" by (metis nth_mem)
qed

lemma symmetric_half:
  assumes d: "distinct P" and r: "rev P = map f P" and len: "length P = 2 * m + 1"
  shows "f (P ! m) = P ! m"
    and "P ! m \<notin> set (drop (m + 1) P)"
    and "t \<in> set P \<Longrightarrow> t \<noteq> P ! m \<Longrightarrow> (t \<in> set (drop (m + 1) P)) \<noteq> (f t \<in> set (drop (m + 1) P))"
proof -
  have mirror: "f (P ! i) = P ! (2 * m - i)" if "i < length P" for i
  proof -
    have "f (P ! i) = map f P ! i" using that by simp
    also have "\<dots> = rev P ! i" by (simp add: r)
    also have "\<dots> = P ! (2 * m - i)" using that len by (simp add: rev_nth)
    finally show ?thesis .
  qed
  show "f (P ! m) = P ! m" using mirror [of m] len by simp
  show "P ! m \<notin> set (drop (m + 1) P)"
    using distinct_nth_in_drop [OF d, of m "m + 1"] len by simp
  show "(t \<in> set (drop (m + 1) P)) \<noteq> (f t \<in> set (drop (m + 1) P))"
    if "t \<in> set P" "t \<noteq> P ! m"
  proof -
    from that(1) obtain i where i: "i < length P" "P ! i = t" by (auto simp: in_set_conv_nth)
    with that(2) have im: "i \<noteq> m" by auto
    have a: "t \<in> set (drop (m + 1) P) \<longleftrightarrow> m + 1 \<le> i"
      using distinct_nth_in_drop [OF d i(1)] i(2) by simp
    have "2 * m - i < length P" using len by simp
    from distinct_nth_in_drop [OF d this, of "m + 1"] mirror [OF i(1)] i(2)
    have b: "f t \<in> set (drop (m + 1) P) \<longleftrightarrow> m + 1 \<le> 2 * m - i" by simp
    show ?thesis using a b im i(1) len by auto
  qed
qed

lemma length_base: "0 \<le> r \<Longrightarrow> length (base r) = 2 * nat r + 1"
  by (simp add: base_def)

lemma neg_fixed_zero:
  fixes t :: "int list"
  assumes "map uminus t = t"
  shows "t = replicate (length t) 0"
proof (rule nth_equalityI)
  show "length t = length (replicate (length t) (0 :: int))" by simp
next
  fix i assume i: "i < length t"
  then have "- (t ! i) = t ! i" using assms by (metis nth_map)
  then show "t ! i = replicate (length t) 0 ! i" using i by simp
qed

text \<open>The product for radius r in d dimensions, and the half that is kept.\<close>

lemma product_half:
  fixes r :: int and d :: nat
  assumes r: "0 \<le> r"
  defines "P \<equiv> itertools_product (replicate d (base r))"
  shows "\<exists>m. length P = 2 * m + 1 \<and> length P div 2 = m"
    and "P ! (length P div 2) = replicate d 0"
    and "kept_tuples d r = drop (length P div 2 + 1) P"
    and "length (kept_tuples d r) = ((2 * nat r + 1) ^ d - 1) div 2"
    and "distinct (kept_tuples d r)"
    and "replicate d 0 \<notin> set (kept_tuples d r)"
    and "t \<in> set P \<Longrightarrow> t \<noteq> replicate d 0 \<Longrightarrow>
         (t \<in> set (kept_tuples d r)) \<noteq> (map uminus t \<in> set (kept_tuples d r))"
    and "set (kept_tuples d r) \<subseteq> set P"
proof -
  have lenP: "length P = (2 * nat r + 1) ^ d"
    by (simp add: P_def length_itertools_product_replicate length_base [OF r])
  have "odd (length P)" unfolding lenP by simp
  then obtain m where m: "length P = 2 * m + 1" by (auto elim: oddE)
  then have half: "length P div 2 = m" by simp
  show "\<exists>m. length P = 2 * m + 1 \<and> length P div 2 = m" using m half by blast
  have dP: "distinct P" by (simp add: P_def distinct_itertools_product_replicate base_def)
  have rP: "rev P = map (map uminus) P"
    unfolding P_def by (rule rev_itertools_product_replicate [OF rev_base])
  note sh = symmetric_half [OF dP rP m]
  show k: "kept_tuples d r = drop (length P div 2 + 1) P"
    by (simp add: kept_tuples_def Let_def P_def)
  have inP: "P ! m \<in> set P" using m by simp
  then have "length (P ! m) = d" by (simp add: P_def set_itertools_product_replicate)
  with neg_fixed_zero [OF sh(1)] have mid: "P ! m = replicate d 0" by simp
  then show "P ! (length P div 2) = replicate d 0" by (simp add: half)
  show "length (kept_tuples d r) = ((2 * nat r + 1) ^ d - 1) div 2"
    unfolding k half using m lenP by simp
  show "distinct (kept_tuples d r)" unfolding k using dP by simp
  show "replicate d 0 \<notin> set (kept_tuples d r)" unfolding k half using sh(2) mid by simp
  show "(t \<in> set (kept_tuples d r)) \<noteq> (map uminus t \<in> set (kept_tuples d r))"
    if "t \<in> set P" "t \<noteq> replicate d 0"
    unfolding k half using sh(3) [of t] that mid by simp
  show "set (kept_tuples d r) \<subseteq> set P" unfolding k by (rule set_drop_subset)
qed

lemma set_product_deltas: "set (itertools_product (replicate d (base 1))) = deltas d"
  by (auto simp: set_itertools_product_replicate deltas_def base_def subset_iff in_set_conv_nth)

lemma kept_deltas: "t \<in> set (kept_tuples d 1) \<Longrightarrow> t \<in> deltas d"
  using product_half(8) [of 1 d] by (auto simp: set_product_deltas)

lemma shifted_in_grid:
  assumes v: "valid_points D rows" and r: "r \<in> set rows" and t: "t \<in> deltas D"
  shows "in_grid (extents c rows) (map2 (+) (coords c rows r) t)"
proof -
  have ls: "length (extents c rows) = D" by (rule extents_props(1) [OF v])
  have lc: "length (coords c rows r) = D" by (rule coords_props(1) [OF v r])
  have lt: "length t = D" using t by (simp add: deltas_def)
  have "0 \<le> map2 (+) (coords c rows r) t ! j \<and> map2 (+) (coords c rows r) t ! j < extents c rows ! j"
    if j: "j < D" for j
  proof -
    have "- 1 \<le> t ! j" "t ! j \<le> 1" using t j by (simp_all add: deltas_def)
    with coords_props(3) [OF v r j, of c] coords_props(4) [OF v r j, of c]
    show ?thesis using lc lt j by simp
  qed
  then show ?thesis using ls lc lt by (simp add: in_grid_def)
qed

lemma shifted_flat:
  assumes v: "valid_points D rows" and r: "r \<in> set rows" and t: "t \<in> deltas D"
  shows "flat (extents c rows) (map2 (+) (coords c rows r) t) =
         flat (extents c rows) (coords c rows r) + flat (extents c rows) t"
proof -
  have "length t = length (extents c rows)"
    using t extents_props(1) [OF v, of c] by (simp add: deltas_def)
  moreover have "length (coords c rows r) = length (extents c rows)"
    using coords_props(1) [OF v r, of c] extents_props(1) [OF v, of c] by simp
  ultimately show ?thesis using extents_nonempty [OF v, of c] by (intro flat_add) auto
qed

text \<open>A cell that holds a point is the cell of a row; its neighbours stay in the grid.\<close>

lemma occupied_cell:
  assumes "counted cells cc" "0 \<le> c" "c < int (length cc)" "cc ! nat c \<noteq> 0"
  shows "c \<in> set cells"
proof -
  have "cc ! nat c = int (count_list cells (int (nat c)))"
    using assms by (simp add: counted_def)
  with assms(2,4) have "count_list cells c \<noteq> 0" by simp
  then show ?thesis by (metis count_notin)
qed

lemma neighbour_in_grid:
  assumes v: "valid_points D rows" and c: "c \<in> set (cell_ids cs rows)"
    and off: "off \<in> set (map (flat (extents cs rows)) (kept_tuples D 1))"
  shows "0 \<le> c + off \<and> c + off < prod_list (extents cs rows)"
proof -
  from c obtain r where r: "r \<in> set rows" "c = flat (extents cs rows) (coords cs rows r)"
    by (auto simp: cell_ids_def)
  from off obtain t where t: "t \<in> set (kept_tuples D 1)" "off = flat (extents cs rows) t" by auto
  have td: "t \<in> deltas D" by (rule kept_deltas [OF t(1)])
  have "c + off = flat (extents cs rows) (map2 (+) (coords cs rows r) t)"
    by (simp add: r(2) t(2) shifted_flat [OF v r(1) td])
  with flat_bound [OF shifted_in_grid [OF v r(1) td] extents_nonempty [OF v], of cs]
  show ?thesis by simp
qed

subsection \<open>Running the enumeration\<close>

lemma intra_pairs_Nil [simp]: "intra_pairs [] = []"
  by (simp add: intra_pairs_def)

lemma cross_pairs_Nil [simp]: "cross_pairs [] ys = []"
  by (simp add: cross_pairs_def)

lemma block_empty:
  assumes "counted cells cc" "0 \<le> c" "c < int (length cc)" "cc ! nat c = 0"
  shows "block cells c = []"
proof -
  have "cc ! nat c = int (count_list cells (int (nat c)))"
    using assms by (simp add: counted_def)
  with assms(2,4) have "count_list cells c = 0" by simp
  with length_block [of cells "nat c"] assms(2) have "length (block cells c) = 0" by simp
  then show ?thesis by simp
qed

lemma emitted_empty: "block cells c = [] \<Longrightarrow> emitted cells offs c = []"
  by (induction offs) (simp_all add: emitted_def)

lemma neighbor_loop_run:
  assumes cnt: "counted cells cc" and inv: "place_inv cells cc (length cells) p co"
  shows "\<forall>off\<in>set os. 0 \<le> c + off \<and> c + off < int (length cc) \<Longrightarrow>
         neighbor_loop c pc p cc co os =
           Inr (concat (map (\<lambda>off. cross_pairs pc (block cells (c + off))) os))"
proof (induction os)
  case Nil
  then show ?case by simp
next
  case (Cons off os)
  have "find_points_in_cell (c + off) p cc co = Inr (block cells (c + off))"
    using Cons.prems by (intro final_find(1) [OF cnt inv]) auto
  then show ?case using Cons by simp
qed

lemma iter_nearest_neighbors_run:
  assumes cnt: "counted cells cc" and inv: "place_inv cells cc (length cells) p co"
    and nb: "\<forall>c off. 0 \<le> c \<and> c < int (length cc) \<and> cc ! nat c \<noteq> 0 \<and> off \<in> set offs
                  \<longrightarrow> 0 \<le> c + off \<and> c + off < int (length cc)"
  shows "\<forall>c\<in>set cs. 0 \<le> c \<and> c < int (length cc) \<Longrightarrow>
         iter_nearest_neighbors cs offs p cc co = Inr (concat (map (emitted cells offs) cs))"
proof (induction cs)
  case Nil
  then show ?case by simp
next
  case (Cons c cs)
  then have c: "0 \<le> c" "c < int (length cc)" by simp_all
  have ih: "iter_nearest_neighbors cs offs p cc co = Inr (concat (map (emitted cells offs) cs))"
    using Cons by simp
  have g: "getitem cc c = Inr (cc ! nat c)" using c by (simp add: getitem_int)
  show ?case
  proof (cases "cc ! nat c = 0")
    case True
    have "emitted cells offs c = []"
      by (rule emitted_empty [OF block_empty [OF cnt c True]])
    then show ?thesis using True g ih by simp
  next
    case False
    have f: "find_points_in_cell c p cc co = Inr (block cells c)"
      by (rule final_find(1) [OF cnt inv c])
    have "\<forall>off\<in>set offs. 0 \<le> c + off \<and> c + off < int (length cc)" using nb c False by blast
    from neighbor_loop_run [OF cnt inv this]
    have n: "neighbor_loop c (block cells c) p cc co offs =
             Inr (concat (map (\<lambda>off. cross_pairs (block cells c) (block cells (c + off))) offs))" .
    show ?thesis using False g f n ih by (simp add: emitted_def [abs_def])
  qed
qed

lemma upair_eq_iff:
  "upair (x, y) = upair (x', y') \<longleftrightarrow> (x = x' \<and> y = y') \<or> (x = y' \<and> y = x')"
  by (auto simp: upair_def doubleton_eq_iff)

lemma intra_pairs_Cons: "intra_pairs (x # xs) = map (\<lambda>j. (x, j)) xs @ intra_pairs xs"
proof (cases xs)
  case Nil
  then show ?thesis by (simp add: intra_pairs_def)
next
  case (Cons y ys)
  let ?n = "length (butlast xs)"
  have b: "butlast (x # xs) = x # butlast xs" using Cons by simp
  have u: "[0..<length (butlast (x # xs))] = 0 # map Suc [0..<?n]"
    unfolding b by (simp add: upt_conv_Cons map_Suc_upt del: upt_Suc)
  have z: "zip [0..<length (butlast (x # xs))] (butlast (x # xs)) =
           (0, x) # map (\<lambda>(k, i). (Suc k, i)) (zip [0..<?n] (butlast xs))"
    by (subst u, subst b) (simp only: zip_Cons_Cons zip_map1)
  show ?thesis
    unfolding intra_pairs_def z by (simp add: comp_def case_prod_unfold)
qed

lemma intra_pairs_set:
  "distinct xs \<Longrightarrow> (x, y) \<in> set (intra_pairs xs) \<Longrightarrow> x \<in> set xs \<and> y \<in> set xs \<and> x \<noteq> y"
  by (induction xs) (auto simp: intra_pairs_Cons)

lemma intra_pairs_total:
  "x \<in> set xs \<Longrightarrow> y \<in> set xs \<Longrightarrow> x \<noteq> y \<Longrightarrow>
   (x, y) \<in> set (intra_pairs xs) \<or> (y, x) \<in> set (intra_pairs xs)"
  by (induction xs) (auto simp: intra_pairs_Cons)

lemma intra_pairs_distinct: "distinct xs \<Longrightarrow> distinct (map upair (intra_pairs xs))"
proof (induction xs)
  case Nil
  then show ?case by simp
next
  case (Cons x xs)
  have a: "distinct (map upair (map (\<lambda>j. (x, j)) xs))"
    using Cons.prems by (auto simp: distinct_map inj_on_def upair_eq_iff)
  have b: "upair (x, j) \<noteq> upair q" if "j \<in> set xs" "q \<in> set (intra_pairs xs)" for j q
  proof (cases q)
    case (Pair u w)
    with intra_pairs_set [of xs u w] that Cons.prems show ?thesis
      by (auto simp: upair_eq_iff)
  qed
  show ?case using Cons a b by (auto simp: intra_pairs_Cons)
qed

lemma cross_pairs_set [simp]: "set (cross_pairs xs ys) = set xs \<times> set ys"
  by (auto simp: cross_pairs_def)

lemma cross_pairs_distinct:
  assumes "distinct xs" "distinct ys" "set xs \<inter> set ys = {}"
  shows "distinct (map upair (cross_pairs xs ys))"
proof -
  have "cross_pairs xs ys = List.product xs ys"
    by (induction xs) (simp_all add: cross_pairs_def)
  then have d: "distinct (cross_pairs xs ys)" using assms by (simp add: distinct_product)
  have "inj_on upair (set (cross_pairs xs ys))"
    using assms(3) by (auto simp: inj_on_def upair_eq_iff)
  with d show ?thesis by (simp add: distinct_map)
qed

lemma distinct_map_append:
  "distinct (map f (as @ bs)) \<longleftrightarrow>
   distinct (map f as) \<and> distinct (map f bs) \<and> (\<forall>a\<in>set as. \<forall>b\<in>set bs. f a \<noteq> f b)"
  by auto

lemma distinct_map_concat:
  assumes "distinct xs"
    and "\<And>x. x \<in> set xs \<Longrightarrow> distinct (map f (g x))"
    and "\<And>x y a b. x \<in> set xs \<Longrightarrow> y \<in> set xs \<Longrightarrow> x \<noteq> y \<Longrightarrow>
           a \<in> set (g x) \<Longrightarrow> b \<in> set (g y) \<Longrightarrow> f a \<noteq> f b"
  shows "distinct (map f (concat (map g xs)))"
  using assms
proof (induction xs)
  case Nil
  then show ?case by simp
next
  case (Cons x xs)
  have "distinct (map f (concat (map g xs)))"
  proof (rule Cons.IH)
    show "distinct xs" using Cons.prems(1) by simp
    show "distinct (map f (g y))" if "y \<in> set xs" for y using Cons.prems(2) that by simp
    show "f a \<noteq> f b"
      if "y \<in> set xs" "z \<in> set xs" "y \<noteq> z" "a \<in> set (g y)" "b \<in> set (g z)" for y z a b
      using Cons.prems(3) [of y z a b] that by simp
  qed
  moreover have "distinct (map f (g x))" using Cons.prems(2) by simp
  moreover have "f a \<noteq> f b" if "a \<in> set (g x)" "b \<in> set (concat (map g xs))" for a b
  proof -
    from that(2) obtain y where y: "y \<in> set xs" "b \<in> set (g y)" by auto
    with Cons.prems(1) have "x \<noteq> y" by auto
    with Cons.prems(3) [of x y a b] y that(1) show ?thesis by simp
  qed
  ultimately show ?case by (auto simp: distinct_map_append)
qed

lemma in_block: "x \<in> set (block cells c) \<longleftrightarrow> (\<exists>i<length cells. x = int i \<and> cells ! i = c)"
  by (auto simp: set_block)

lemma block_cell_unique: "x \<in> set (block cells c) \<Longrightarrow> x \<in> set (block cells c') \<Longrightarrow> c = c'"
  by (auto simp: in_block)

lemma emitted_mem:
  "(x, y) \<in> set (emitted cells offs c) \<longleftrightarrow>
     (x, y) \<in> set (intra_pairs (block cells c))
     \<or> (x \<in> set (block cells c) \<and> (\<exists>off\<in>set offs. y \<in> set (block cells (c + off))))"
  by (auto simp: emitted_def)

lemma emitted_origin:
  assumes "0 \<notin> set offs" "(x, y) \<in> set (emitted cells offs c)"
  shows "x \<in> set (block cells c)" and "x \<noteq> y"
    and "y \<in> set (block cells c) \<or> (\<exists>off\<in>set offs. y \<in> set (block cells (c + off)))"
proof -
  from assms(2) consider
    (intra) "(x, y) \<in> set (intra_pairs (block cells c))"
    | (cross) off where "x \<in> set (block cells c)" "off \<in> set offs" "y \<in> set (block cells (c + off))"
    by (auto simp: emitted_mem)
  then have "x \<in> set (block cells c) \<and> x \<noteq> y
     \<and> (y \<in> set (block cells c) \<or> (\<exists>off\<in>set offs. y \<in> set (block cells (c + off))))"
  proof cases
    case intra
    from intra_pairs_set [OF distinct_block intra] show ?thesis by simp
  next
    case cross
    have "off \<noteq> 0" using cross(2) assms(1) by auto
    then have "c + off \<noteq> c" by simp
    with block_cell_unique [of x cells c "c + off"] cross show ?thesis by auto
  qed
  then show "x \<in> set (block cells c)" and "x \<noteq> y"
    and "y \<in> set (block cells c) \<or> (\<exists>off\<in>set offs. y \<in> set (block cells (c + off)))"
    by simp_all
qed

lemma emitted_distinct:
  assumes d: "distinct offs" and nz: "0 \<notin> set offs"
  shows "distinct (map upair (emitted cells offs c))"
proof -
  let ?B = "block cells"
  let ?h = "\<lambda>off. cross_pairs (?B c) (?B (c + off))"
  have a: "distinct (map upair (intra_pairs (?B c)))"
    by (rule intra_pairs_distinct [OF distinct_block])
  have b: "distinct (map upair (concat (map ?h offs)))"
  proof (rule distinct_map_concat [OF d])
    fix off assume off: "off \<in> set offs"
    then have "c + off \<noteq> c" using nz by auto
    then have "set (?B c) \<inter> set (?B (c + off)) = {}"
      using block_cell_unique [of _ cells c "c + off"] by auto
    then show "distinct (map upair (?h off))"
      by (intro cross_pairs_distinct distinct_block)
  next
    fix off off' a b
    assume h: "off \<in> set offs" "off' \<in> set offs" "off \<noteq> off'"
      "a \<in> set (?h off)" "b \<in> set (?h off')"
    obtain x y where a: "a = (x, y)" by (cases a)
    obtain x' y' where b: "b = (x', y')" by (cases b)
    have m: "x \<in> set (?B c)" "y \<in> set (?B (c + off))" "x' \<in> set (?B c)" "y' \<in> set (?B (c + off'))"
      using h(4,5) a b by simp_all
    have "off' \<noteq> 0" using h(2) nz by auto
    show "upair a \<noteq> upair b"
    proof
      assume "upair a = upair b"
      then consider "y = y'" | "x = y'" by (auto simp: a b upair_eq_iff)
      then show False
      proof cases
        case 1
        with block_cell_unique [OF m(2), of "c + off'"] m(4) h(3) show False by simp
      next
        case 2
        with block_cell_unique [OF m(1), of "c + off'"] m(4) \<open>off' \<noteq> 0\<close> show False by simp
      qed
    qed
  qed
  have c: "upair a \<noteq> upair b"
    if "a \<in> set (intra_pairs (?B c))" "b \<in> set (concat (map ?h offs))" for a b
  proof
    assume e: "upair a = upair b"
    obtain x y where a: "a = (x, y)" by (cases a)
    obtain x' y' where b: "b = (x', y')" by (cases b)
    from that(2) b obtain off where off: "off \<in> set offs" "y' \<in> set (?B (c + off))" by auto
    have "x \<in> set (?B c)" "y \<in> set (?B c)"
      using intra_pairs_set [OF distinct_block, of x y cells c] that(1) a by simp_all
    moreover have "y' = x \<or> y' = y" using e by (auto simp: a b upair_eq_iff)
    ultimately have "y' \<in> set (?B c)" by auto
    from block_cell_unique [OF this off(2)] off(1) nz show False by auto
  qed
  show ?thesis
    unfolding emitted_def using a b c by (simp only: distinct_map_append) blast
qed

lemma emitted_all_distinct:
  assumes dc: "distinct cs" and d: "distinct offs" and nz: "0 \<notin> set offs"
    and ns: "\<forall>a\<in>set offs. \<forall>b\<in>set offs. a + b \<noteq> 0"
  shows "distinct (map upair (concat (map (emitted cells offs) cs)))"
proof (rule distinct_map_concat [OF dc])
  fix c show "distinct (map upair (emitted cells offs c))"
    by (rule emitted_distinct [OF d nz])
next
  fix c c' a b
  assume h: "c \<noteq> c'" "a \<in> set (emitted cells offs c)" "b \<in> set (emitted cells offs c')"
  obtain x y where a: "a = (x, y)" by (cases a)
  obtain x' y' where b: "b = (x', y')" by (cases b)
  note oa = emitted_origin [OF nz h(2) [unfolded a]]
  note ob = emitted_origin [OF nz h(3) [unfolded b]]
  show "upair a \<noteq> upair b"
  proof
    assume "upair a = upair b"
    then consider "x = x'" | "x = y'" "y = x'" by (auto simp: a b upair_eq_iff)
    then show False
    proof cases
      case 1
      with block_cell_unique [OF oa(1), of c'] ob(1) h(1) show False by simp
    next
      case 2
      from ob(3) 2(1) oa(1) h(1) obtain off' where f': "off' \<in> set offs" "c = c' + off'"
        using block_cell_unique [of x cells c] by metis
      from oa(3) 2(2) ob(1) h(1) obtain off where f: "off \<in> set offs" "c' = c + off"
        using block_cell_unique [of x' cells c'] by metis
      from f(2) f'(2) have "off + off' = 0" by simp
      with ns f(1) f'(1) show False by blast
    qed
  qed
qed

lemma emitted_all_set:
  assumes cover: "set cells \<subseteq> set cs" and nz: "0 \<notin> set offs"
  shows "set (map upair (concat (map (emitted cells offs) cs))) =
         {{int i, int j} |i j. i < length cells \<and> j < length cells \<and> i \<noteq> j
            \<and> (cells ! i = cells ! j \<or> cells ! j - cells ! i \<in> set offs
                \<or> cells ! i - cells ! j \<in> set offs)}"
    (is "?L = ?R")
proof (intro set_eqI iffI)
  fix s assume "s \<in> ?L"
  then obtain c x y where c: "c \<in> set cs" "(x, y) \<in> set (emitted cells offs c)" "s = {x, y}"
    by (auto simp: upair_def)
  note o = emitted_origin [OF nz c(2)]
  from o(1) obtain i where i: "i < length cells" "x = int i" "cells ! i = c" by (auto simp: in_block)
  from o(3) obtain j where j: "j < length cells" "y = int j"
    "cells ! j = c \<or> (\<exists>off\<in>set offs. cells ! j = c + off)"
    by (auto simp: in_block)
  have "i \<noteq> j" using o(2) i(2) j(2) by auto
  moreover have "cells ! i = cells ! j \<or> cells ! j - cells ! i \<in> set offs"
    using i(3) j(3) by auto
  ultimately show "s \<in> ?R" using c(3) i(1,2) j(1,2) by blast
next
  fix s assume "s \<in> ?R"
  then obtain i j where ij: "s = {int i, int j}" "i < length cells" "j < length cells" "i \<noteq> j"
    and k: "cells ! i = cells ! j \<or> cells ! j - cells ! i \<in> set offs
            \<or> cells ! i - cells ! j \<in> set offs"
    by blast
  have ci: "cells ! i \<in> set cs" "cells ! j \<in> set cs" using cover ij(2,3) by auto
  have bi: "int i \<in> set (block cells (cells ! i))" "int j \<in> set (block cells (cells ! j))"
    using ij(2,3) by (auto simp: in_block)
  have wit: "\<exists>c\<in>set cs. \<exists>q\<in>set (emitted cells offs c). upair q = s"
    if "c \<in> set cs" "(x, y) \<in> set (emitted cells offs c)" "{x, y} = s" for c x y
  proof (intro bexI)
    show "upair (x, y) = s" using that(3) by (simp add: upair_def)
  qed (rule that(2), rule that(1))
  from k consider (same) "cells ! i = cells ! j"
    | (fwd) "cells ! j - cells ! i \<in> set offs" | (bwd) "cells ! i - cells ! j \<in> set offs"
    by blast
  then have "\<exists>c\<in>set cs. \<exists>q\<in>set (emitted cells offs c). upair q = s"
  proof cases
    case same
    with bi have "int j \<in> set (block cells (cells ! i))" by simp
    from intra_pairs_total [OF bi(1) this] ij(4)
    have "(int i, int j) \<in> set (emitted cells offs (cells ! i))
          \<or> (int j, int i) \<in> set (emitted cells offs (cells ! i))"
      by (auto simp: emitted_mem)
    then show ?thesis using wit [OF ci(1)] ij(1) by (auto simp: insert_commute)
  next
    case fwd
    have "int j \<in> set (block cells (cells ! i + (cells ! j - cells ! i)))" using bi(2) by simp
    with fwd bi(1) have "(int i, int j) \<in> set (emitted cells offs (cells ! i))"
      unfolding emitted_mem by blast
    then show ?thesis using wit [OF ci(1)] ij(1) by simp
  next
    case bwd
    have "int i \<in> set (block cells (cells ! j + (cells ! i - cells ! j)))" using bi(1) by simp
    with bwd bi(2) have "(int j, int i) \<in> set (emitted cells offs (cells ! j))"
      unfolding emitted_mem by blast
    then show ?thesis using wit [OF ci(2)] ij(1) by (simp add: insert_commute)
  qed
  then show "s \<in> ?L" by auto
qed

lemma foldr_max_le: "foldr max xs (0 :: int) \<le> r \<longleftrightarrow> 0 \<le> r \<and> (\<forall>x\<in>set xs. x \<le> r)"
  by (induction xs) auto

lemma chebyshev_le_1:
  assumes "length a = D" "length b = D"
  shows "chebyshev a b \<le> 1 \<longleftrightarrow> (\<forall>k<D. \<bar>a ! k - b ! k\<bar> \<le> 1)"
proof -
  have "(\<forall>x\<in>set (map2 (\<lambda>x y. \<bar>x - y\<bar>) a b). x \<le> 1) \<longleftrightarrow> (\<forall>k<D. \<bar>a ! k - b ! k\<bar> \<le> 1)"
    using assms by (auto simp: set_zip in_set_conv_nth) 
  then show ?thesis by (simp add: chebyshev_def foldr_max_le)
qed

lemma adjacent_delta:
  assumes "length a = D" "length b = D"
  shows "chebyshev a b \<le> 1 \<longleftrightarrow> (\<exists>t\<in>deltas D. b = map2 (+) a t)"
proof
  assume "chebyshev a b \<le> 1"
  then have k: "\<forall>k<D. \<bar>a ! k - b ! k\<bar> \<le> 1" using assms by (simp add: chebyshev_le_1)
  let ?t = "map2 (-) b a"
  have "?t \<in> deltas D" using assms k by (auto simp: deltas_def)
  moreover have "b = map2 (+) a ?t" using assms by (intro nth_equalityI) auto
  ultimately show "\<exists>t\<in>deltas D. b = map2 (+) a t" by blast
next
  assume "\<exists>t\<in>deltas D. b = map2 (+) a t"
  then obtain t where t: "t \<in> deltas D" "b = map2 (+) a t" by blast
  have "\<bar>a ! k - b ! k\<bar> \<le> 1" if "k < D" for k
  proof -
    have "- 1 \<le> t ! k" "t ! k \<le> 1" "length t = D" using t(1) that by (simp_all add: deltas_def)
    moreover have "b ! k = a ! k + t ! k" using t(2) assms(1) that \<open>length t = D\<close> by simp
    ultimately show ?thesis by simp
  qed
  then show "chebyshev a b \<le> 1" using assms by (simp add: chebyshev_le_1)
qed

lemma chebyshev_commute:
  assumes "length a = D" "length b = D"
  shows "chebyshev a b \<le> 1 \<longleftrightarrow> chebyshev b a \<le> 1"
  using assms by (simp add: chebyshev_le_1 abs_minus_commute)

lemma zeros_delta: "replicate d 0 \<in> deltas d"
  by (simp add: deltas_def)

lemma neg_delta: "t \<in> deltas d \<Longrightarrow> map uminus t \<in> deltas d"
  by (auto simp: deltas_def)

lemma flat_zero:
  assumes "length shape = D" "0 < D"
  shows "flat shape (replicate D 0) = 0"
proof -
  have "map2 (+) (replicate D (0 :: int)) (replicate D 0) = replicate D 0"
    by (intro nth_equalityI) auto
  with flat_add [of "replicate D 0" shape "replicate D 0"] assms show ?thesis by auto
qed

lemma flat_neg:
  assumes "length shape = D" "0 < D" "length t = D"
  shows "flat shape (map uminus t) = - flat shape t"
proof -
  have "map2 (+) t (map uminus t) = replicate D 0"
    using assms(3) by (intro nth_equalityI) auto
  with flat_add [of t shape "map uminus t"] assms flat_zero [OF assms(1,2)] show ?thesis by auto
qed

lemma map2_add_cancel:
  fixes p t t' :: "int list"
  assumes "length p = D" "length t = D" "length t' = D" "map2 (+) p t = map2 (+) p t'"
  shows "t = t'"
proof (rule nth_equalityI)
  show "length t = length t'" using assms by simp
next
  fix k assume k: "k < length t"
  have e: "map2 (+) p t ! k = map2 (+) p t' ! k" by (simp only: assms(4))
  have "map2 (+) p t ! k = p ! k + t ! k" "map2 (+) p t' ! k = p ! k + t' ! k"
    using assms(1-3) k by simp_all
  with e show "t ! k = t' ! k" by simp
qed

lemma flat_inj_deltas:
  assumes v: "valid_points D rows" and t: "t \<in> deltas D" "t' \<in> deltas D"
    and e: "flat (extents c rows) t = flat (extents c rows) t'"
  shows "t = t'"
proof -
  from v obtain r where r: "r \<in> set rows" by (cases rows) (auto simp: valid_points_def)
  have "flat (extents c rows) (map2 (+) (coords c rows r) t) =
        flat (extents c rows) (map2 (+) (coords c rows r) t')"
    by (simp add: shifted_flat [OF v r] t e)
  from flat_inj [OF shifted_in_grid [OF v r t(1)] shifted_in_grid [OF v r t(2)]
      extents_nonempty [OF v] this]
  have "map2 (+) (coords c rows r) t = map2 (+) (coords c rows r) t'" .
  from map2_add_cancel [OF coords_props(1) [OF v r] _ _ this] t show ?thesis
    by (simp add: deltas_def)
qed

text \<open>The offsets of radius 1 for the grid of a point array.\<close>

lemma offsets_props:
  fixes c :: real
  assumes v: "valid_points D rows"
  defines "offs \<equiv> map (flat (extents c rows)) (kept_tuples D 1)"
  shows "distinct offs" and "0 \<notin> set offs"
    and "\<forall>a\<in>set offs. \<forall>b\<in>set offs. a + b \<noteq> 0"
    and "t \<in> deltas D \<Longrightarrow> t \<noteq> replicate D 0 \<Longrightarrow>
         flat (extents c rows) t \<in> set offs \<or> - flat (extents c rows) t \<in> set offs"
    and "a \<in> set offs \<Longrightarrow> \<exists>t\<in>deltas D. a = flat (extents c rows) t"
proof -
  let ?f = "flat (extents c rows)" and ?K = "kept_tuples D 1"
  have D: "length (extents c rows) = D" "0 < D"
    using extents_props(1) [OF v] v by (simp_all add: valid_points_def)
  note h = product_half [where r = 1 and d = D, simplified]
  have "inj_on ?f (set ?K)"
    by (rule inj_onI) (rule flat_inj_deltas [OF v kept_deltas kept_deltas])
  then show "distinct offs" using h(5) by (simp add: offs_def distinct_map)
  show "0 \<notin> set offs"
  proof
    assume "0 \<in> set offs"
    then obtain t where t: "t \<in> set ?K" "?f t = 0" by (auto simp: offs_def)
    then have "?f t = ?f (replicate D 0)" by (simp add: flat_zero [OF D])
    from flat_inj_deltas [OF v kept_deltas [OF t(1)] zeros_delta this] t(1) h(6)
    show False by simp
  qed
  show "\<forall>a\<in>set offs. \<forall>b\<in>set offs. a + b \<noteq> 0"
  proof (intro ballI notI)
    fix a b assume "a \<in> set offs" "b \<in> set offs" "a + b = 0"
    then obtain t t' where t: "t \<in> set ?K" "t' \<in> set ?K" "?f t + ?f t' = 0"
      by (auto simp: offs_def)
    have lt: "length t' = D" using kept_deltas [OF t(2)] by (simp add: deltas_def)
    have "?f t = ?f (map uminus t')" using t(3) by (simp add: flat_neg [OF D lt])
    from flat_inj_deltas [OF v kept_deltas [OF t(1)] neg_delta [OF kept_deltas [OF t(2)]] this]
    have "map uminus t' \<in> set ?K" using t(1) by simp
    moreover have "t' \<in> set (itertools_product (replicate D (base 1)))"
      using kept_deltas [OF t(2)] by (simp add: set_product_deltas)
    moreover have "t' \<noteq> replicate D 0" using t(2) h(6) by auto
    ultimately show False using h(7) [of t'] t(2) by simp
  qed
  show "?f t \<in> set offs \<or> - ?f t \<in> set offs" if "t \<in> deltas D" "t \<noteq> replicate D 0" for t
  proof -
    have "t \<in> set (itertools_product (replicate D (base 1)))"
      using that(1) by (simp add: set_product_deltas)
    from h(7) [OF this that(2)] have "t \<in> set ?K \<or> map uminus t \<in> set ?K" by blast
    moreover have "?f (map uminus t) = - ?f t"
      using that(1) by (intro flat_neg [OF D]) (simp add: deltas_def)
    ultimately show ?thesis by (force simp: offs_def)
  qed
  show "\<exists>t\<in>deltas D. a = ?f t" if "a \<in> set offs" for a
    using that kept_deltas by (auto simp: offs_def)
qed

lemma coords_shift_iff:
  assumes v: "valid_points D rows" and ri: "ri \<in> set rows" and rj: "rj \<in> set rows"
    and t: "length t = D"
  shows "coords c rows rj = map2 (+) (coords c rows ri) t \<longleftrightarrow>
         cell_row c rj = map2 (+) (cell_row c ri) t"
proof -
  have l: "length (coords c rows ri) = D" "length (coords c rows rj) = D"
    "length (cell_row c ri) = D" "length (cell_row c rj) = D"
    using coords_props(1) [OF v ri] coords_props(1) [OF v rj] v ri rj
    by (simp_all add: valid_points_def)
  have "coords c rows rj = map2 (+) (coords c rows ri) t \<longleftrightarrow>
        (\<forall>k<D. coords c rows rj ! k = coords c rows ri ! k + t ! k)"
    using l t by (auto simp: list_eq_iff_nth_eq)
  also have "\<dots> \<longleftrightarrow> (\<forall>k<D. cell_row c rj ! k = cell_row c ri ! k + t ! k)"
    using coords_props(2) [OF v ri] coords_props(2) [OF v rj] by auto
  also have "\<dots> \<longleftrightarrow> cell_row c rj = map2 (+) (cell_row c ri) t"
    using l t by (auto simp: list_eq_iff_nth_eq)
  finally show ?thesis .
qed

lemma cell_shift:
  assumes v: "valid_points D rows" and ri: "ri \<in> set rows" and rj: "rj \<in> set rows"
    and t: "t \<in> deltas D"
  shows "flat (extents c rows) (coords c rows rj) =
           flat (extents c rows) (coords c rows ri) + flat (extents c rows) t
         \<longleftrightarrow> cell_row c rj = map2 (+) (cell_row c ri) t"
proof -
  have lt: "length t = D" using t by (simp add: deltas_def)
  have "flat (extents c rows) (coords c rows rj) =
          flat (extents c rows) (coords c rows ri) + flat (extents c rows) t
        \<longleftrightarrow> flat (extents c rows) (coords c rows rj) =
          flat (extents c rows) (map2 (+) (coords c rows ri) t)"
    by (simp add: shifted_flat [OF v ri t])
  also have "\<dots> \<longleftrightarrow> coords c rows rj = map2 (+) (coords c rows ri) t"
    using flat_inj [OF coords_in_grid [OF v rj] shifted_in_grid [OF v ri t]
        extents_nonempty [OF v], of c]
    by auto
  also have "\<dots> \<longleftrightarrow> cell_row c rj = map2 (+) (cell_row c ri) t"
    by (rule coords_shift_iff [OF v ri rj lt])
  finally show ?thesis .
qed

lemma cell_ids_nth:
  "i < length rows \<Longrightarrow>
   cell_ids c rows ! i = flat (extents c rows) (coords c rows (rows ! i))"
  by (simp add: cell_ids_def)

text \<open>
  Two points are paired by the cell arithmetic exactly when their integer cell coordinates
  differ by at most 1 in every dimension.
\<close>

lemma adjacency_iff:
  fixes c :: real
  assumes v: "valid_points D rows" and i: "i < length rows" and j: "j < length rows"
  defines "cells \<equiv> cell_ids c rows"
    and "offs \<equiv> map (flat (extents c rows)) (kept_tuples D 1)"
  shows "(cells ! i = cells ! j \<or> cells ! j - cells ! i \<in> set offs \<or> cells ! i - cells ! j \<in> set offs)
         \<longleftrightarrow> chebyshev (cell_row c (rows ! i)) (cell_row c (rows ! j)) \<le> 1"
proof -
  let ?f = "flat (extents c rows)"
  let ?a = "cell_row c (rows ! i)" and ?b = "cell_row c (rows ! j)"
  have ri: "rows ! i \<in> set rows" and rj: "rows ! j \<in> set rows" using i j by simp_all
  have la: "length ?a = D" "length ?b = D" using v ri rj by (simp_all add: valid_points_def)
  have D: "length (extents c rows) = D" "0 < D"
    using extents_props(1) [OF v] v by (simp_all add: valid_points_def)
  note op = offsets_props [OF v, where c = c, folded offs_def]
  have ci: "cells ! i = ?f (coords c rows (rows ! i))" and cj: "cells ! j = ?f (coords c rows (rows ! j))"
    using i j by (simp_all add: cells_def cell_ids_nth)
  have fwd: "cells ! j = cells ! i + ?f t \<longleftrightarrow> ?b = map2 (+) ?a t" if "t \<in> deltas D" for t
    unfolding ci cj by (rule cell_shift [OF v ri rj that])
  have bwd: "cells ! i = cells ! j + ?f t \<longleftrightarrow> ?a = map2 (+) ?b t" if "t \<in> deltas D" for t
    unfolding ci cj by (rule cell_shift [OF v rj ri that])
  show ?thesis
  proof
    assume "cells ! i = cells ! j \<or> cells ! j - cells ! i \<in> set offs \<or> cells ! i - cells ! j \<in> set offs"
    then consider (same) "cells ! i = cells ! j"
      | (f) "cells ! j - cells ! i \<in> set offs" | (b) "cells ! i - cells ! j \<in> set offs" by blast
    then show "chebyshev ?a ?b \<le> 1"
    proof cases
      case same
      then have "cells ! j = cells ! i + ?f (replicate D 0)" by (simp add: flat_zero [OF D])
      with fwd [OF zeros_delta] have "?b = map2 (+) ?a (replicate D 0)" by simp
      with zeros_delta show ?thesis unfolding adjacent_delta [OF la] by blast
    next
      case f
      from op(5) [OF f] obtain t where t: "t \<in> deltas D" "cells ! j - cells ! i = ?f t" by blast
      then have "cells ! j = cells ! i + ?f t" by simp
      with fwd [OF t(1)] have "?b = map2 (+) ?a t" by simp
      with t(1) show ?thesis unfolding adjacent_delta [OF la] by blast
    next
      case b
      from op(5) [OF b] obtain t where t: "t \<in> deltas D" "cells ! i - cells ! j = ?f t" by blast
      then have "cells ! i = cells ! j + ?f t" by simp
      with bwd [OF t(1)] have "?a = map2 (+) ?b t" by simp
      with t(1) have "chebyshev ?b ?a \<le> 1" unfolding adjacent_delta [OF la(2,1)] by blast
      then show ?thesis by (simp add: chebyshev_commute [OF la])
    qed
  next
    assume "chebyshev ?a ?b \<le> 1"
    then obtain t where t: "t \<in> deltas D" "?b = map2 (+) ?a t"
      unfolding adjacent_delta [OF la] by blast
    with fwd [OF t(1)] have e: "cells ! j = cells ! i + ?f t" by simp
    show "cells ! i = cells ! j \<or> cells ! j - cells ! i \<in> set offs \<or> cells ! i - cells ! j \<in> set offs"
    proof (cases "t = replicate D 0")
      case True
      with e show ?thesis by (simp add: flat_zero [OF D])
    next
      case False
      from op(4) [OF t(1) False] e show ?thesis by auto
    qed
  qed
qed

text \<open>What \<open>partition_cells\<close> returns when it returns.\<close>

lemma interactions_length:
  "interactions cc neigh acc cs es = Inr (t, cs') \<Longrightarrow> length cs' = length cs"
proof (induction es arbitrary: acc cs)
  case Nil
  then show ?case by simp
next
  case (Cons e es)
  obtain i cnt where e: "e = (i, cnt)" by (cases e)
  show ?case
  proof (cases "cnt = 0")
    case True
    with Cons e show ?thesis by simp
  next
    case False
    from Cons.prems e False obtain acc' cs1 where
      s: "setitem cs i acc' = Inr cs1" "interactions cc neigh acc' cs1 es = Inr (t, cs')"
      by (auto simp: bind_def split: sum.splits)
    from s(1) have "length cs1 = length cs"
      by (auto simp: setitem_def split: option.splits)
    with Cons.IH [OF s(2)] show ?thesis by simp
  qed
qed

lemma split_loop_sorted:
  "split_loop n cs sz splits part_index i = Inr res \<Longrightarrow>
   1 \<le> part_index \<Longrightarrow> part_index \<le> n \<Longrightarrow> 0 \<le> i \<Longrightarrow> i \<le> int (length cs) \<Longrightarrow>
   length splits = nat n + 1 \<Longrightarrow> splits ! 0 = 0 \<Longrightarrow> splits ! nat n = int (length cs) \<Longrightarrow>
   sorted (take (nat part_index) splits) \<Longrightarrow>
   \<forall>x\<in>set (take (nat part_index) splits). x \<le> i \<Longrightarrow>
   length res = nat n + 1 \<and> res ! 0 = 0 \<and> res ! nat n = int (length cs) \<and> sorted res"
proof (induction n cs sz splits part_index i rule: split_loop.induct)
  case (1 n cs sz splits part_index i)
  show ?case
  proof (cases "part_index < n")
    case False
    with "1.prems"(3) have pn: "part_index = n" by simp
    have res: "res = splits" using "1.prems"(1) False by simp
    have "splits = take (nat n) splits @ [splits ! nat n]"
      using "1.prems"(6) by (simp add: take_Suc_conv_app_nth [symmetric])
    moreover have "sorted (take (nat n) splits @ [int (length cs)])"
      using "1.prems"(9,10,5) pn by (auto simp: sorted_append)
    ultimately have "sorted splits" using "1.prems"(8) by simp
    with res "1.prems"(6,7,8) show ?thesis by simp
  next
    case True
    from "1.prems"(1) True obtain v where v: "getitem cs i = Inr v"
      by (cases "getitem cs i") auto
    then have il: "i < int (length cs)"
      by (auto simp: getitem_def py_index_def split: if_splits)
    show ?thesis
    proof (cases "v \<ge> part_index * sz")
      case False
      have r: "split_loop n cs sz splits part_index (i + 1) = Inr res"
        using "1.prems"(1) True v False by simp
      have "\<forall>x\<in>set (take (nat part_index) splits). x \<le> i + 1" using "1.prems"(10) by auto
      from "1.IH"(2) [OF True v False r "1.prems"(2,3) _ _ "1.prems"(6,7,8,9) this]
      show ?thesis using "1.prems"(4) il by simp
    next
      case ge: True
      have pidx: "py_index (length splits) part_index = Some (nat part_index)"
        using "1.prems"(2,6) True by (simp add: py_index_def)
      define splits' where "splits' = splits[nat part_index := i]"
      have s: "setitem splits part_index i = Inr splits'"
        by (simp add: setitem_def pidx splits'_def)
      have r: "split_loop n cs sz splits' (part_index + 1) (i + 1) = Inr res"
        using "1.prems"(1) True v ge s by simp
      have np: "nat (part_index + 1) = Suc (nat part_index)" using "1.prems"(2) by simp
      have lt: "nat part_index < length splits" using "1.prems"(2,6) True by simp
      have tk: "take (nat (part_index + 1)) splits' = take (nat part_index) splits @ [i]"
        using lt by (simp add: np splits'_def take_Suc_conv_app_nth)
      have a: "sorted (take (nat (part_index + 1)) splits')"
        unfolding tk using "1.prems"(9,10) by (auto simp: sorted_append)
      have b: "\<forall>x\<in>set (take (nat (part_index + 1)) splits'). x \<le> i + 1"
        unfolding tk using "1.prems"(10) by auto
      have c: "length splits' = nat n + 1" "splits' ! 0 = 0" "splits' ! nat n = int (length cs)"
        using "1.prems"(2,6,7,8) True by (simp_all add: splits'_def)
      from "1.IH"(1) [OF True v ge s r _ _ _ _ c a b] "1.prems"(2,4) True il
      show ?thesis by simp
    qed
  qed
qed

lemma partition_cells_sorted:
  assumes "partition_cells n cells_count neigh_cells uninit = Inr res"
    and "length uninit = length cells_count"
  shows "length res = nat n + 1 \<and> res ! 0 = 0 \<and> last res = int (length cells_count)
       \<and> sorted res"
proof -
  from assms(1) have n: "0 < n" by (auto simp: partition_cells_def split: if_splits)
  from assms(1) n obtain t cs where
    i: "interactions cells_count neigh_cells 0 uninit (enumerate_int cells_count) = Inr (t, cs)"
    by (cases "interactions cells_count neigh_cells 0 uninit (enumerate_int cells_count)")
       (auto simp: partition_cells_def)
  have lcs: "length cs = length cells_count"
    using interactions_length [OF i] assms(2) by simp
  define s0 where "s0 = np_empty (nat (n + 1))"
  have l0: "length s0 = nat n + 1" using n by (simp add: s0_def np_empty_def)
  define s1 where "s1 = s0[0 := 0, nat n := int (length cells_count)]"
  have l1: "length s1 = nat n + 1" using l0 by (simp add: s1_def)
  have e0: "setitem s0 0 0 = Inr (s0[0 := 0])"
    using l0 by (simp add: setitem_def py_index_def)
  have "py_index (length (s0[0 := 0])) (- 1) = Some (nat n)"
    using l0 n by (simp add: py_index_def)
  then have e1: "setitem (s0[0 := 0]) (- 1) (int (length cells_count)) = Inr s1"
    by (simp add: setitem_def s1_def)
  have r: "split_loop n cs \<lceil>real_of_int t / real_of_int n\<rceil> s1 1 0 = Inr res"
    using assms(1) n
    by (simp add: partition_cells_def i e0 [unfolded s0_def] e1 [unfolded s0_def]
          del: split_loop.simps)
  have z: "s1 ! 0 = 0" using n l0 by (simp add: s1_def nth_list_update)
  have m: "s1 ! nat n = int (length cs)" using l0 by (simp add: s1_def lcs)
  have tk: "take (nat 1) s1 = [0]" using l1 z by (cases s1) simp_all
  from split_loop_sorted [OF r _ _ _ _ l1 z m] n tk
  have q: "length res = nat n + 1 \<and> res ! 0 = 0 \<and> res ! nat n = int (length cs) \<and> sorted res"
    by simp
  from q have "res \<noteq> []" "length res - 1 = nat n" by auto
  then have "last res = res ! nat n" by (simp add: last_conv_nth)
  with q lcs show ?thesis by simp
qed

subsection \<open>Where the machine arithmetic is exact\<close>

lemma wrap64_id: "- (2 ^ 63) \<le> x \<Longrightarrow> x < 2 ^ 63 \<Longrightarrow> wrap64 x = x"
  by (simp add: wrap64_def)

lemma prod_list_ge1: "\<forall>x\<in>set xs. (1 :: int) \<le> x \<Longrightarrow> 1 \<le> prod_list xs"
proof (induction xs)
  case Nil
  then show ?case by simp
next
  case (Cons x xs)
  then have "1 \<le> x" "1 \<le> prod_list xs" by simp_all
  then have "1 * 1 \<le> x * prod_list xs" by (intro mult_mono) auto
  then show ?case by simp
qed

lemma member_le_prod_list:
  "\<forall>x\<in>set xs. (1 :: int) \<le> x \<Longrightarrow> y \<in> set xs \<Longrightarrow> y \<le> prod_list xs"
proof (induction xs)
  case Nil
  then show ?case by simp
next
  case (Cons x xs)
  have x: "1 \<le> x" and p: "1 \<le> prod_list xs" using Cons.prems(1) prod_list_ge1 [of xs] by simp_all
  show ?case
  proof (cases "y = x")
    case True
    have "x * 1 \<le> x * prod_list xs" using x p by (intro mult_left_mono) auto
    with True show ?thesis by simp
  next
    case False
    with Cons have "y \<le> prod_list xs" by simp
    moreover have "1 * prod_list xs \<le> x * prod_list xs" using x p by (intro mult_right_mono) auto
    ultimately show ?thesis by simp
  qed
qed

lemma np_prod_exact:
  "\<forall>x\<in>set xs. 1 \<le> x \<Longrightarrow> 1 \<le> a \<Longrightarrow> a * prod_list xs < 2 ^ 63 \<Longrightarrow>
   foldl (\<lambda>a x. wrap64 (a * x)) a xs = a * prod_list xs"
proof (induction xs arbitrary: a)
  case Nil
  then show ?case by simp
next
  case (Cons x xs)
  have x: "1 \<le> x" and p: "1 \<le> prod_list xs" using Cons.prems(1) prod_list_ge1 [of xs] by simp_all
  have ax: "1 \<le> a * x" using Cons.prems(2) x by (metis mult_mono mult_1 zero_le_one order_trans zero_le_one)
  have "(a * x) * 1 \<le> (a * x) * prod_list xs" using ax p by (intro mult_left_mono) auto
  then have lt: "a * x < 2 ^ 63" using Cons.prems(3) by (simp add: mult.assoc)
  have w: "wrap64 (a * x) = a * x" using ax lt by (intro wrap64_id) auto
  have "foldl (\<lambda>a x. wrap64 (a * x)) (a * x) xs = (a * x) * prod_list xs"
    using Cons.prems by (intro Cons.IH ax) (simp_all add: mult.assoc)
  then show ?case by (simp add: w mult.assoc)
qed

lemma np_prod_prod_list:
  "\<forall>x\<in>set xs. 1 \<le> x \<Longrightarrow> prod_list xs < 2 ^ 63 \<Longrightarrow> np_prod xs = prod_list xs"
  using np_prod_exact [of xs 1] by (simp add: np_prod_def)

text \<open>The flattening loop on coordinates of the grid.\<close>

lemma horner_wrap_grid:
  "length vs = length ns \<Longrightarrow> \<forall>(i, n)\<in>set (zip vs ns). 0 \<le> i \<and> i < n \<Longrightarrow>
   0 \<le> l \<Longrightarrow> l < P \<Longrightarrow> P * prod_list ns < 2 ^ 63 \<Longrightarrow>
   foldl (\<lambda>l (i, n). wrap64 (wrap64 (l * n) + i)) l (zip vs ns) =
   foldl (\<lambda>l (i, n). l * n + i) l (zip vs ns)"
proof (induction vs ns arbitrary: l P rule: list_induct2)
  case Nil
  then show ?case by simp
next
  case (Cons v vs n ns)
  from Cons.prems have vn: "0 \<le> v" "v < n" by auto
  have rest: "\<forall>(i, n)\<in>set (zip vs ns). 0 \<le> i \<and> i < n" using Cons.prems(1) by simp
  have "\<forall>x\<in>set ns. 1 \<le> x"
  proof
    fix x assume "x \<in> set ns"
    then obtain k where k: "k < length ns" "ns ! k = x" by (auto simp: in_set_conv_nth)
    then have "(vs ! k, x) \<in> set (zip vs ns)" using Cons.hyps by (auto simp: set_zip)
    with rest show "1 \<le> x" by auto
  qed
  then have p: "1 \<le> prod_list ns" by (rule prod_list_ge1)
  have ln0: "0 \<le> l * n" using Cons.prems(2) vn by simp
  have "l * n \<le> (P - 1) * n" using Cons.prems(3) vn by (intro mult_right_mono) auto
  then have hi: "l * n + v < P * n" using vn by (simp add: algebra_simps)
  have "0 \<le> P * n" using ln0 hi vn by linarith
  then have "(P * n) * 1 \<le> (P * n) * prod_list ns" using p by (intro mult_left_mono) auto
  then have big: "P * n < 2 ^ 63" using Cons.prems(4) by (simp add: mult.assoc)
  have w1: "wrap64 (l * n) = l * n" using ln0 hi vn big by (intro wrap64_id) auto
  have w2: "wrap64 (l * n + v) = l * n + v" using ln0 hi vn big by (intro wrap64_id) auto
  have "foldl (\<lambda>l (i, n). wrap64 (wrap64 (l * n) + i)) (l * n + v) (zip vs ns) =
        foldl (\<lambda>l (i, n). l * n + i) (l * n + v) (zip vs ns)"
    using Cons.prems(4) ln0 vn by (intro Cons.IH [OF rest _ hi]) (simp_all add: mult.assoc)
  then show ?case by (simp add: w1 w2)
qed

lemma flatten_grid:
  assumes "in_grid shape v" "shape \<noteq> []" "prod_list shape < 2 ^ 63"
  shows "flatten shape v = Inr (flat shape v)"
proof -
  from assms obtain n ns where s: "shape = n # ns" by (cases shape) auto
  from assms s obtain x xs where v: "v = x # xs" by (cases v) (auto simp: in_grid_def)
  have x: "0 \<le> x" "x < n" using assms(1) s v by (auto simp: in_grid_def)
  have len: "length xs = length ns" using assms(1) s v by (simp add: in_grid_def)
  have z: "\<forall>(i, n)\<in>set (zip xs ns). 0 \<le> i \<and> i < n" using in_grid_zip [OF assms(1)] s v by simp
  have "n * prod_list ns < 2 ^ 63" using assms(3) s by simp
  from horner_wrap_grid [OF len z x this] show ?thesis by (simp add: flatten_def flat_def s v)
qed

lemma small_in_range:
  fixes x Q :: int
  assumes "2 * \<bar>x\<bar> < Q" "Q \<le> 2 ^ 64"
  shows "- (2 ^ 63) \<le> x" and "x < 2 ^ 63"
proof -
  have "(2 :: int) ^ 64 = 2 * 2 ^ 63" by simp
  with assms have "2 * \<bar>x\<bar> < 2 * 2 ^ 63" by linarith
  then have "\<bar>x\<bar> < 2 ^ 63" by simp
  then show "- (2 ^ 63) \<le> x" and "x < 2 ^ 63" by linarith+
qed

text \<open>The flattening loop on tuples of small entries, as the tuples of the product are.\<close>

lemma horner_wrap_small:
  "length vs = length ns \<Longrightarrow> \<forall>(i, n)\<in>set (zip vs ns). \<bar>i\<bar> \<le> r \<and> 2 * r < n \<Longrightarrow>
   0 \<le> r \<Longrightarrow> 2 * \<bar>l\<bar> < P \<Longrightarrow> P * prod_list ns \<le> 2 ^ 64 \<Longrightarrow>
   foldl (\<lambda>l (i, n). wrap64 (wrap64 (l * n) + i)) l (zip vs ns) =
   foldl (\<lambda>l (i, n). l * n + i) l (zip vs ns)"
proof (induction vs ns arbitrary: l P rule: list_induct2)
  case Nil
  then show ?case by simp
next
  case (Cons v vs n ns)
  from Cons.prems have vn: "\<bar>v\<bar> \<le> r" "2 * r < n" by auto
  have n1: "1 \<le> n" using vn Cons.prems(2) by simp
  have rest: "\<forall>(i, n)\<in>set (zip vs ns). \<bar>i\<bar> \<le> r \<and> 2 * r < n" using Cons.prems(1) by simp
  have "\<forall>x\<in>set ns. 1 \<le> x"
  proof
    fix x assume "x \<in> set ns"
    then obtain k where k: "k < length ns" "ns ! k = x" by (auto simp: in_set_conv_nth)
    then have "(vs ! k, x) \<in> set (zip vs ns)" using Cons.hyps by (auto simp: set_zip)
    with rest Cons.prems(2) show "1 \<le> x" by auto
  qed
  then have p: "1 \<le> prod_list ns" by (rule prod_list_ge1)
  have "2 * \<bar>l\<bar> \<le> P - 1" using Cons.prems(3) by simp
  then have "(2 * \<bar>l\<bar>) * n \<le> (P - 1) * n" using n1 by (intro mult_right_mono) auto
  moreover have "\<bar>l * n\<bar> = \<bar>l\<bar> * n" using n1 by (simp add: abs_mult)
  ultimately have a: "2 * \<bar>l * n\<bar> \<le> P * n - n" by (simp add: algebra_simps)
  have "\<bar>l * n + v\<bar> \<le> \<bar>l * n\<bar> + \<bar>v\<bar>" by (rule abs_triangle_ineq)
  then have "2 * \<bar>l * n + v\<bar> \<le> 2 * \<bar>l * n\<bar> + 2 * \<bar>v\<bar>" by simp
  also have "\<dots> \<le> (P * n - n) + 2 * r" using a vn(1) by (intro add_mono) simp_all
  also have "\<dots> < P * n" using vn(2) by simp
  finally have b: "2 * \<bar>l * n + v\<bar> < P * n" .
  have "P * n - n < P * n" using n1 by simp
  with a have a': "2 * \<bar>l * n\<bar> < P * n" by (rule order_le_less_trans)
  have "0 \<le> P * n" using a' by linarith
  then have "(P * n) * 1 \<le> (P * n) * prod_list ns" using p by (intro mult_left_mono) auto
  then have big: "P * n \<le> 2 ^ 64" using Cons.prems(4) by (simp add: mult.assoc)
  have w1: "wrap64 (l * n) = l * n" by (intro wrap64_id small_in_range [OF a' big])
  have w2: "wrap64 (l * n + v) = l * n + v" by (intro wrap64_id small_in_range [OF b big])
  have "foldl (\<lambda>l (i, n). wrap64 (wrap64 (l * n) + i)) (l * n + v) (zip vs ns) =
        foldl (\<lambda>l (i, n). l * n + i) (l * n + v) (zip vs ns)"
    using Cons.prems(2,4) by (intro Cons.IH [OF rest _ b]) (simp_all add: mult.assoc)
  then show ?case by (simp add: w1 w2)
qed

lemma flatten_small:
  assumes "length t = length shape" "shape \<noteq> []" "0 \<le> r"
    and "\<forall>x\<in>set t. \<bar>x\<bar> \<le> r" and "\<forall>n\<in>set (tl shape). 2 * r < n"
    and "(2 * r + 1) * prod_list (tl shape) \<le> 2 ^ 64"
  shows "flatten shape t = Inr (flat shape t)"
proof -
  from assms obtain n ns where s: "shape = n # ns" by (cases shape) auto
  from assms s obtain x xs where t: "t = x # xs" by (cases t) auto
  have len: "length xs = length ns" using assms(1) s t by simp
  have z: "\<forall>(i, n)\<in>set (zip xs ns). \<bar>i\<bar> \<le> r \<and> 2 * r < n"
    using assms(4,5) s t by (auto dest: set_zip_leftD set_zip_rightD)
  have l: "2 * \<bar>x\<bar> < 2 * r + 1" using assms(4) t by simp
  have "(2 * r + 1) * prod_list ns \<le> 2 ^ 64" using assms(6) s by simp
  from horner_wrap_small [OF len z assms(3) l this] show ?thesis
    by (simp add: flatten_def flat_def s t)
qed

subsection \<open>The grid of an array that fits\<close>

lemma extents_range:
  assumes v: "valid_points D rows" and f: "fits c rows" and e: "e \<in> set (extents c rows)"
  shows "3 \<le> e" and "e < 2 ^ 63"
proof -
  have ge: "\<forall>x\<in>set (extents c rows). 3 \<le> x"
    using extents_ge3 [OF v, of _ c] extents_props(1) [OF v, of c] by (auto simp: in_set_conv_nth)
  then show "3 \<le> e" using e by simp
  have "\<forall>x\<in>set (extents c rows). 1 \<le> x" using ge by auto
  from member_le_prod_list [OF this e] f show "e < 2 ^ 63" by (simp add: fits_def)
qed

lemma grid_shape_exact:
  assumes v: "valid_points D rows" and f: "fits c rows"
  shows "grid_shape c rows = extents c rows"
proof (rule nth_equalityI)
  have l: "length (x_max c rows) = D" "length (x_min c rows) = D"
    using x_max_props(1) [OF v] x_min_props(1) [OF v] by simp_all
  show "length (grid_shape c rows) = length (extents c rows)"
    by (simp add: grid_shape_def extents_def)
  fix j assume "j < length (grid_shape c rows)"
  then have j: "j < D" using l by (simp add: grid_shape_def)
  define d where "d = x_max c rows ! j - x_min c rows ! j"
  have ej: "extents c rows ! j = d + 3" using extents_props(2) [OF v j, of c] by (simp add: d_def)
  have "extents c rows ! j \<in> set (extents c rows)" using j extents_props(1) [OF v, of c] by simp
  from extents_range [OF v f this] have r: "0 \<le> d" "d + 3 < 2 ^ 63" by (simp_all add: ej)
  have w: "wrap64 d = d" "wrap64 (d + 1) = d + 1" "wrap64 (d + 1 + 2) = d + 3"
    using r by (simp_all add: wrap64_id)
  have "grid_shape c rows ! j = wrap64 (wrap64 (wrap64 d + 1) + 2)"
    using j l by (simp add: grid_shape_def d_def)
  also have "\<dots> = d + 3" by (simp only: w)
  finally show "grid_shape c rows ! j = extents c rows ! j" by (simp add: ej)
qed

lemma normalized_exact:
  assumes v: "valid_points D rows" and f: "fits c rows" and r: "r \<in> set rows"
  shows "normalized (x_min c rows) (cell_row c r) = coords c rows r"
proof (rule nth_equalityI)
  have l: "length (cell_row c r) = D" "length (x_min c rows) = D"
    using v r x_min_props(1) [OF v] by (simp_all add: valid_points_def)
  show "length (normalized (x_min c rows) (cell_row c r)) = length (coords c rows r)"
    by (simp add: normalized_def coords_def)
  fix j assume "j < length (normalized (x_min c rows) (cell_row c r))"
  then have j: "j < D" using l by (simp add: normalized_def)
  define d where "d = cell_row c r ! j - x_min c rows ! j"
  have cj: "coords c rows r ! j = d + 1" using coords_props(2) [OF v r j, of c] by (simp add: d_def)
  have "extents c rows ! j \<in> set (extents c rows)" using j extents_props(1) [OF v, of c] by simp
  from extents_range(2) [OF v f this] coords_props(3) [OF v r j, of c] coords_props(4) [OF v r j, of c]
  have rg: "0 \<le> d" "d + 1 < 2 ^ 63" by (simp_all add: cj)
  have w: "wrap64 d = d" "wrap64 (d + 1) = d + 1" using rg by (simp_all add: wrap64_id)
  have "normalized (x_min c rows) (cell_row c r) ! j = wrap64 (wrap64 d + 1)"
    using j l by (simp add: normalized_def d_def)
  also have "\<dots> = d + 1" by (simp only: w)
  finally show "normalized (x_min c rows) (cell_row c r) ! j = coords c rows r ! j"
    by (simp add: cj)
qed

lemma compute_cells_exact:
  assumes v: "valid_points D rows" and f: "fits c rows"
  shows "\<forall>r\<in>set rs. r \<in> set rows \<Longrightarrow>
         compute_cells c (x_min c rows) (extents c rows) rs =
           Inr (map (\<lambda>r. flat (extents c rows) (coords c rows r)) rs)"
proof (induction rs)
  case Nil
  then show ?case by simp
next
  case (Cons r rs)
  then have r: "r \<in> set rows" by simp
  have "flatten (extents c rows) (coords c rows r) = Inr (flat (extents c rows) (coords c rows r))"
    using f by (intro flatten_grid coords_in_grid [OF v r] extents_nonempty [OF v])
               (simp add: fits_def)
  then show ?case using Cons by (simp add: normalized_exact [OF v f r])
qed

lemma compute_cells_ids:
  assumes v: "valid_points D rows" and f: "fits c rows"
  shows "compute_cells c (x_min c rows) (grid_shape c rows) rows = Inr (cell_ids c rows)"
  using compute_cells_exact [OF v f, of rows]
  by (simp add: grid_shape_exact [OF v f] cell_ids_def)

text \<open>What \<open>add_to_cells\<close> returns for a non-empty rectangular array that fits.\<close>

lemma add_to_cells_layout:
  assumes v: "valid_points D rows" and cs: "0 < cell_size" and f: "fits cell_size rows"
  shows "\<exists>p cc co. add_to_cells (Mat rows) cell_size = Inr (p, cc, co, extents cell_size rows)
           \<and> int (length cc) = prod_list (extents cell_size rows)
           \<and> counted (cell_ids cell_size rows) cc
           \<and> place_inv (cell_ids cell_size rows) cc (length rows) p co"
proof -
  let ?shape = "extents cell_size rows" and ?cells = "cell_ids cell_size rows"
  let ?G = "nat (prod_list ?shape)"
  have ne: "rows \<noteq> []" using v by (simp add: valid_points_def)
  have lc: "length ?cells = length rows" by (simp add: cell_ids_def)
  obtain l where "l \<in> set ?cells" using ne lc by (cases ?cells) auto
  from cell_ids_range [OF v this] have G: "0 < prod_list ?shape" by simp
  have "\<forall>x\<in>set ?shape. 1 \<le> x" using extents_range(1) [OF v f] by fastforce
  from np_prod_prod_list [OF this] f have np: "np_prod ?shape = prod_list ?shape"
    by (simp add: fits_def)
  have z: "np_zeros (prod_list ?shape) = Inr (replicate ?G 0)" using G by (simp add: np_zeros_def)
  have rng: "\<forall>l\<in>set ?cells. 0 \<le> l \<and> l < int (length (replicate ?G (0 :: int)))"
    using cell_ids_range [OF v] G by simp
  from count_cells_ok [OF rng] obtain cc where cc:
    "count_cells (replicate ?G 0) ?cells = Inr cc" "length cc = ?G"
    "\<forall>c<?G. cc ! c = int (count_list ?cells (int c))"
    by auto
  have cnt: "counted ?cells cc" using cc(2,3) rng by (simp add: counted_def)
  have "place_inv ?cells cc 0 (np_empty (length rows)) (cumsum cc)"
    using cnt lc by (intro place_inv_init) (simp_all add: np_empty_def)
  from place_run [OF cnt _ this, of ] obtain p co where pl:
    "place (np_empty (length rows)) (cumsum cc) (enumerate_int ?cells) = Inr (p, co)"
    "place_inv ?cells cc (length ?cells) p co"
    by auto
  have "add_to_cells (Mat rows) cell_size = Inr (p, cc, co, ?shape)"
    using cs ne
    by (simp add: add_to_cells_def Let_def grid_shape_exact [OF v f] np z
          compute_cells_ids [OF v f, unfolded grid_shape_exact [OF v f]] cc(1) pl(1))
  moreover have "int (length cc) = prod_list ?shape" using cc(2) G by simp
  ultimately show ?thesis using cnt pl(2) lc by auto
qed

text \<open>The offsets of radius 1 for that grid.\<close>

lemma kept_tuples_nonempty:
  assumes "0 < d" "1 \<le> r"
  shows "kept_tuples d r \<noteq> []"
proof -
  have r0: "0 \<le> r" using assms(2) by simp
  have "(3 :: nat) ^ 1 \<le> (2 * nat r + 1) ^ d"
    using assms by (intro power_mono [THEN order_trans [OF _ power_increasing]]) auto
  then have "1 \<le> ((2 * nat r + 1) ^ d - 1) div 2" by simp
  with product_half(4) [OF r0, of d] show ?thesis by auto
qed

lemma neighboring_cells_kernel_flat:
  "\<forall>t\<in>set ts. flatten shape t = Inr (flat shape t) \<Longrightarrow>
   neighboring_cells_kernel ts shape = Inr (map (flat shape) ts)"
  by (induction ts) simp_all

lemma neighboring_cells_grid:
  assumes v: "valid_points D rows" and f: "fits c rows"
  shows "neighboring_cells (extents c rows) 1 =
         Inr (map (flat (extents c rows)) (kept_tuples D 1))"
proof -
  let ?shape = "extents c rows"
  have D: "length ?shape = D" "0 < D"
    using extents_props(1) [OF v] v by (simp_all add: valid_points_def)
  have ne: "?shape \<noteq> []" by (rule extents_nonempty [OF v])
  have big: "\<forall>n\<in>set (tl ?shape). 2 * 1 < n"
    using extents_range(1) [OF v f] ne by (fastforce dest: list.set_sel(2))
  have "hd ?shape \<in> set ?shape" using ne by simp
  from extents_range(1) [OF v f this] have h: "3 \<le> hd ?shape" .
  have pt: "1 \<le> prod_list (tl ?shape)" using big by (intro prod_list_ge1) auto
  have "prod_list ?shape = hd ?shape * prod_list (tl ?shape)" using ne by (cases ?shape) simp_all
  moreover have "3 * prod_list (tl ?shape) \<le> hd ?shape * prod_list (tl ?shape)"
    using h pt by (intro mult_right_mono) auto
  ultimately have "3 * prod_list (tl ?shape) < 2 ^ 63" using f by (simp add: fits_def)
  then have sm: "(2 * 1 + 1) * prod_list (tl ?shape) \<le> 2 ^ 64" by simp
  have fl: "flatten ?shape t = Inr (flat ?shape t)" if "t \<in> set (kept_tuples D 1)" for t
  proof -
    have td: "t \<in> deltas D" by (rule kept_deltas [OF that])
    then have "length t = length ?shape" using D by (simp add: deltas_def)
    moreover have "\<forall>x\<in>set t. \<bar>x\<bar> \<le> 1"
      using td by (auto simp: deltas_def in_set_conv_nth abs_le_iff)
    ultimately show ?thesis using ne big sm by (intro flatten_small) auto
  qed
  have "kept_tuples D 1 \<noteq> []" using D by (intro kept_tuples_nonempty) auto
  then show ?thesis
    using fl D by (simp add: neighboring_cells_def neighboring_cells_kernel_flat)
qed

subsection \<open>What \<open>add_to_cells\<close> has done when it returns\<close>
















subsection \<open>The offsets as mixed-radix values\<close>

lemma strides_Cons: "strides (n # ns) = prod_list ns # strides ns"
proof -
  have "[0..<length (n # ns)] = 0 # map Suc [0..<length ns]"
    by (simp add: upt_conv_Cons map_Suc_upt del: upt_Suc)
  then show ?thesis by (simp add: strides_def comp_def)
qed

lemma mixed_radix_Cons:
  "mixed_radix (n # ns) (v # vs) = v * prod_list ns + mixed_radix ns vs"
  by (simp add: mixed_radix_def strides_Cons)

lemma horner_mixed_radix:
  "length vs = length ns \<Longrightarrow>
   foldl (\<lambda>l (i, n). l * n + i) l (zip vs ns) = l * prod_list ns + mixed_radix ns vs"
proof (induction vs ns arbitrary: l rule: list_induct2)
  case Nil
  then show ?case by (simp add: mixed_radix_def)
next
  case (Cons v vs n ns)
  have "foldl (\<lambda>l (i, n). l * n + i) l (zip (v # vs) (n # ns)) =
        foldl (\<lambda>l (i, n). l * n + i) (l * n + v) (zip vs ns)" by simp
  also have "\<dots> = (l * n + v) * prod_list ns + mixed_radix ns vs" by (rule Cons.IH)
  also have "\<dots> = l * prod_list (n # ns) + mixed_radix (n # ns) (v # vs)"
    by (simp add: mixed_radix_Cons algebra_simps)
  finally show ?case .
qed

lemma flat_mixed_radix:
  assumes "length t = length shape" "shape \<noteq> []"
  shows "flat shape t = mixed_radix shape t"
proof -
  from assms obtain n ns where s: "shape = n # ns" by (cases shape) auto
  from assms s obtain x xs where t: "t = x # xs" by (cases t) auto
  have "length xs = length ns" using assms(1) s t by simp
  from horner_mixed_radix [OF this, of x] show ?thesis
    by (simp add: flat_def s t mixed_radix_Cons)
qed

lemma horner_step_inj_small:
  fixes l m v w n r :: int
  assumes "\<bar>v\<bar> \<le> r" "\<bar>w\<bar> \<le> r" "2 * r < n" "l * n + v = m * n + w"
  shows "l = m \<and> v = w"
proof -
  have e: "(l - m) * n = w - v" using assms(4) by (simp add: algebra_simps)
  have "l = m"
  proof (rule ccontr)
    assume "l \<noteq> m"
    then have "1 \<le> \<bar>l - m\<bar>" by simp
    moreover have n: "0 < n" using assms(1,3) by simp
    ultimately have "1 * n \<le> \<bar>l - m\<bar> * n" by (intro mult_right_mono) auto
    then have "n \<le> \<bar>(l - m) * n\<bar>" using n by (simp add: abs_mult)
    moreover have "\<bar>w - v\<bar> \<le> 2 * r" using assms(1,2) by simp
    ultimately show False using e assms(3) by simp
  qed
  with assms(4) show ?thesis by simp
qed

lemma horner_inj_small:
  "length vs = length ws \<Longrightarrow> length ws = length ns \<Longrightarrow>
   \<forall>(i, n)\<in>set (zip vs ns). \<bar>i\<bar> \<le> r \<and> 2 * r < n \<Longrightarrow>
   \<forall>(i, n)\<in>set (zip ws ns). \<bar>i\<bar> \<le> r \<and> 2 * r < n \<Longrightarrow>
   foldl (\<lambda>l (i, n). l * n + i) (l :: int) (zip vs ns) = foldl (\<lambda>l (i, n). l * n + i) m (zip ws ns) \<Longrightarrow>
   l = m \<and> vs = ws"
proof (induction vs ws ns arbitrary: l m rule: list_induct3)
  case Nil
  then show ?case by simp
next
  case (Cons v vs w ws n ns)
  from Cons.prems have r: "\<bar>v\<bar> \<le> r" "\<bar>w\<bar> \<le> r" "2 * r < n" by auto
  have "l * n + v = m * n + w \<and> vs = ws"
    using Cons.IH [of "l * n + v" "m * n + w"] Cons.prems by simp
  with horner_step_inj_small [OF r] show ?case by blast
qed

lemma product_small:
  "0 \<le> r \<Longrightarrow> t \<in> set (itertools_product (replicate d (base r))) \<longleftrightarrow> small_tuple r d t"
  by (auto simp: set_itertools_product_replicate small_tuple_def base_def abs_le_iff)

lemma flat_inj_small:
  assumes "small_tuple r (length shape) t" "small_tuple r (length shape) t'" "shape \<noteq> []"
    and "\<forall>n\<in>set (tl shape). 2 * r < n" and "flat shape t = flat shape t'"
  shows "t = t'"
proof -
  from assms obtain n ns where s: "shape = n # ns" by (cases shape) auto
  from assms s obtain x xs where t: "t = x # xs" by (cases t) (auto simp: small_tuple_def)
  from assms s obtain y ys where t': "t' = y # ys" by (cases t') (auto simp: small_tuple_def)
  have len: "length xs = length ys" "length ys = length ns"
    using assms(1,2) s t t' by (simp_all add: small_tuple_def)
  have z: "\<forall>(i, n)\<in>set (zip xs ns). \<bar>i\<bar> \<le> r \<and> 2 * r < n"
    "\<forall>(i, n)\<in>set (zip ys ns). \<bar>i\<bar> \<le> r \<and> 2 * r < n"
    using assms(1,2,4) s t t' by (auto simp: small_tuple_def dest: set_zip_leftD set_zip_rightD)
  have "foldl (\<lambda>l (i, n). l * n + i) x (zip xs ns) = foldl (\<lambda>l (i, n). l * n + i) y (zip ys ns)"
    using assms(5) by (simp add: flat_def s t t')
  from horner_inj_small [OF len z this] show ?thesis by (simp add: t t')
qed

lemma neighboring_cells_kernel_total:
  "\<forall>t\<in>set ts. t \<noteq> [] \<Longrightarrow>
   \<exists>ls. neighboring_cells_kernel ts shape = Inr ls \<and> length ls = length ts"
proof (induction ts)
  case Nil
  then show ?case by simp
next
  case (Cons t ts)
  then obtain ls where ls: "neighboring_cells_kernel ts shape = Inr ls" "length ls = length ts"
    by auto
  from Cons.prems obtain x xs where "t = x # xs" by (cases t) auto
  then obtain l where "flatten shape t = Inr l" by (simp add: flatten_def)
  with ls show ?case by simp
qed

lemma kept_small:
  assumes "0 \<le> r" "t \<in> set (kept_tuples d r)"
  shows "small_tuple r d t"
  using product_half(8) [OF assms(1), of d] assms(2) product_small [OF assms(1)] by auto

lemma neighboring_cells_total:
  assumes "1 \<le> r" "shape \<noteq> []"
  shows "\<exists>offs. neighboring_cells shape r = Inr offs
           \<and> length offs = ((2 * nat r + 1) ^ length shape - 1) div 2"
proof -
  have r0: "0 \<le> r" using assms(1) by simp
  let ?K = "kept_tuples (length shape) r"
  have ne: "?K \<noteq> []" using assms by (intro kept_tuples_nonempty) auto
  have "t \<noteq> []" if "t \<in> set ?K" for t
    using kept_small [OF r0 that] assms(2) by (auto simp: small_tuple_def)
  from neighboring_cells_kernel_total [of ?K shape] this obtain ls where
    "neighboring_cells_kernel ?K shape = Inr ls" "length ls = length ?K" by auto
  then show ?thesis
    using assms(1) ne product_half(4) [OF r0, of "length shape"]
    by (simp add: neighboring_cells_def)
qed

lemma neighboring_cells_mixed_radix:
  assumes r: "1 \<le> r" and ne: "shape \<noteq> []"
    and big: "\<forall>n\<in>set (tl shape). 2 * r < n"
    and sm: "(2 * r + 1) * prod_list (tl shape) \<le> 2 ^ 64"
  defines "offs \<equiv> map (mixed_radix shape) (kept_tuples (length shape) r)"
  shows "neighboring_cells shape r = Inr offs"
    and "distinct offs" and "0 \<notin> set offs"
    and "small_tuple r (length shape) t \<Longrightarrow> t \<noteq> replicate (length shape) 0 \<Longrightarrow>
         (mixed_radix shape t \<in> set offs) \<noteq> (- mixed_radix shape t \<in> set offs)"
proof -
  let ?d = "length shape" and ?K = "kept_tuples (length shape) r"
  have r0: "0 \<le> r" using r by simp
  have d0: "0 < ?d" using ne by simp
  note h = product_half [OF r0, where d = ?d]
  have ks: "small_tuple r ?d t" if "t \<in> set ?K" for t by (rule kept_small [OF r0 that])
  have fm: "flat shape t = mixed_radix shape t" if "small_tuple r ?d t" for t
    using that ne by (intro flat_mixed_radix) (simp_all add: small_tuple_def)
  have fl: "flatten shape t = Inr (flat shape t)" if "small_tuple r ?d t" for t
    using that ne r0 big sm by (intro flatten_small) (auto simp: small_tuple_def)
  have "map (flat shape) ?K = offs" using fm ks by (simp add: offs_def)
  moreover have "?K \<noteq> []" using d0 r by (intro kept_tuples_nonempty) auto
  moreover have "neighboring_cells_kernel ?K shape = Inr (map (flat shape) ?K)"
    using fl ks by (intro neighboring_cells_kernel_flat) auto
  ultimately show "neighboring_cells shape r = Inr offs"
    using r by (simp add: neighboring_cells_def)
  have inj: "t = t'" if "small_tuple r ?d t" "small_tuple r ?d t'"
    "mixed_radix shape t = mixed_radix shape t'" for t t'
    using that fm by (intro flat_inj_small [OF that(1,2) ne big]) simp
  have mem: "mixed_radix shape t \<in> set offs \<longleftrightarrow> t \<in> set ?K" if "small_tuple r ?d t" for t
    using inj [OF that] ks by (auto simp: offs_def)
  have "inj_on (mixed_radix shape) (set ?K)" using inj ks by (auto intro: inj_onI)
  then show "distinct offs" using h(5) by (simp add: offs_def distinct_map)
  have zs: "small_tuple r ?d (replicate ?d 0)" using r0 by (simp add: small_tuple_def)
  have z0: "mixed_radix shape (replicate ?d 0) = 0"
    using fm [OF zs] flat_zero [of shape ?d] d0 by simp
  show "0 \<notin> set offs" using mem [OF zs] h(6) by (simp add: z0)
  show "(mixed_radix shape t \<in> set offs) \<noteq> (- mixed_radix shape t \<in> set offs)"
    if t: "small_tuple r ?d t" "t \<noteq> replicate ?d 0" for t
  proof -
    have nt: "small_tuple r ?d (map uminus t)" using t(1) by (auto simp: small_tuple_def)
    have "mixed_radix shape (map uminus t) = - mixed_radix shape t"
      using fm [OF nt] fm [OF t(1)] flat_neg [of shape ?d t] d0 t(1)
      by (simp add: small_tuple_def)
    then have "- mixed_radix shape t \<in> set offs \<longleftrightarrow> map uminus t \<in> set ?K"
      using mem [OF nt] by simp
    moreover have "t \<in> set (itertools_product (replicate ?d (base r)))"
      using t(1) by (simp add: product_small [OF r0])
    ultimately show ?thesis using h(7) [OF _ t(2)] mem [OF t(1)] by simp
  qed
qed

subsection \<open>The blocks of a returned layout\<close>







section \<open>The grid, the offsets and the enumeration\<close>






text \<open>
  C4 (counterexample). The shape \<open>[5, 1]\<close> has positive entries. With radius 1 the four
  kept tuples \<open>(0,1), (1,-1), (1,0), (1,1)\<close> are flattened to \<open>[1, 0, 1, 2]\<close>: the offset 1
  stands for two different tuples, and the non-zero tuple \<open>(1,-1)\<close> gives the zero offset,
  which is its own negation.
\<close>

theorem neighboring_cells_flat_grid:
  "neighboring_cells [5, 1] 1 = Inr [1, 0, 1, 2]
   \<and> kept_tuples 2 1 = [[0, 1], [1, - 1], [1, 0], [1, 1]]
   \<and> \<not> distinct [1, 0, 1, 2 :: int] \<and> (0 :: int) \<in> set [1, 0, 1, 2]"
  by code_simp

text \<open>
  C4 (amended). For every non-empty grid shape (of D entries) and every radius of at least
  1, \<open>neighboring_cells\<close> returns \<open>((2 * radius + 1) ^ D - 1) / 2\<close> offsets. When every entry
  of the shape after the first exceeds \<open>2 * radius\<close> and \<open>2 * radius + 1\<close> times the product
  of these entries is at most \<open>2 ^ 64\<close>, the offsets are the mixed-radix values (entries
  times strides of the shape, summed) of the tuples that stand strictly after the middle
  of the product \<open>{-radius..radius} ^ D\<close>; the middle tuple is the zero tuple, of value 0;
  different tuples of the product have different values; the offsets are distinct, none
  is zero, and of the value of every non-zero tuple of the product and its negation
  exactly one is an offset.
\<close>

theorem neighboring_cells_half:
  assumes "1 \<le> distance" "shape \<noteq> []"
  shows "\<exists>offs. neighboring_cells shape distance = Inr offs
         \<and> length offs = ((2 * nat distance + 1) ^ length shape - 1) div 2
         \<and> ((\<forall>n\<in>set (tl shape). 2 * distance < n)
              \<and> (2 * distance + 1) * prod_list (tl shape) \<le> 2 ^ 64 \<longrightarrow>
            (\<exists>prod. prod = itertools_product (replicate (length shape) (base distance))
              \<and> length prod = (2 * nat distance + 1) ^ length shape
              \<and> prod ! (length prod div 2) = replicate (length shape) 0
              \<and> mixed_radix shape (replicate (length shape) 0) = 0
              \<and> offs = map (mixed_radix shape) (drop (length prod div 2 + 1) prod)
              \<and> (\<forall>t\<in>set prod. \<forall>t'\<in>set prod.
                    mixed_radix shape t = mixed_radix shape t' \<longrightarrow> t = t')
              \<and> distinct offs \<and> 0 \<notin> set offs
              \<and> (\<forall>t\<in>set prod. t \<noteq> replicate (length shape) 0 \<longrightarrow>
                    (mixed_radix shape t \<in> set offs) \<noteq> (- mixed_radix shape t \<in> set offs))))"
proof -
  let ?d = "length shape" and ?K = "kept_tuples (length shape) distance"
  let ?P = "itertools_product (replicate (length shape) (base distance))"
  have r0: "0 \<le> distance" using assms by simp
  note h = product_half [OF r0, where d = ?d]
  from neighboring_cells_total [OF assms] obtain offs where
    n: "neighboring_cells shape distance = Inr offs"
    and l: "length offs = ((2 * nat distance + 1) ^ ?d - 1) div 2"
    by blast
  have lp: "length ?P = (2 * nat distance + 1) ^ ?d"
    by (simp add: length_itertools_product_replicate length_base [OF r0])
  have "length ?P = (2 * nat distance + 1) ^ ?d
      \<and> ?P ! (length ?P div 2) = replicate ?d 0
      \<and> mixed_radix shape (replicate ?d 0) = 0
      \<and> offs = map (mixed_radix shape) (drop (length ?P div 2 + 1) ?P)
      \<and> (\<forall>t\<in>set ?P. \<forall>t'\<in>set ?P. mixed_radix shape t = mixed_radix shape t' \<longrightarrow> t = t')
      \<and> distinct offs \<and> 0 \<notin> set offs
      \<and> (\<forall>t\<in>set ?P. t \<noteq> replicate ?d 0 \<longrightarrow>
            (mixed_radix shape t \<in> set offs) \<noteq> (- mixed_radix shape t \<in> set offs))"
    if big: "\<forall>n\<in>set (tl shape). 2 * distance < n"
      and sm: "(2 * distance + 1) * prod_list (tl shape) \<le> 2 ^ 64"
  proof -
    note m = neighboring_cells_mixed_radix [OF assms big sm]
    have o: "offs = map (mixed_radix shape) ?K" using n m(1) by simp
    have k: "?K = drop (length ?P div 2 + 1) ?P" by (rule h(3))
    have zs: "small_tuple distance ?d (replicate ?d 0)" using r0 by (simp add: small_tuple_def)
    have z: "mixed_radix shape (replicate ?d 0) = 0"
      using flat_mixed_radix [of "replicate ?d 0" shape] flat_zero [of shape ?d] assms(2) by simp
    have inj: "t = t'" if "t \<in> set ?P" "t' \<in> set ?P" "mixed_radix shape t = mixed_radix shape t'"
      for t t'
    proof -
      have s: "small_tuple distance ?d t" "small_tuple distance ?d t'"
        using that(1,2) by (simp_all add: product_small [OF r0])
      then have "flat shape t = flat shape t'"
        using that(3) assms(2) by (simp add: flat_mixed_radix small_tuple_def)
      from flat_inj_small [OF s assms(2) big this] show ?thesis .
    qed
    have pm: "(mixed_radix shape t \<in> set offs) \<noteq> (- mixed_radix shape t \<in> set offs)"
      if "t \<in> set ?P" "t \<noteq> replicate ?d 0" for t
      using m(4) [of t] that by (simp add: o product_small [OF r0])
    have o': "offs = map (mixed_radix shape) (drop (length ?P div 2 + 1) ?P)"
      using o k by simp
    have d: "distinct offs" "0 \<notin> set offs" using m(2,3) by (simp_all add: o)
    show ?thesis using lp h(2) z o' inj d pm by blast
  qed
  with n l show ?thesis by (intro exI [of _ offs]) blast
qed

theorem neighboring_cells_half_witness:
  "(1 :: int) \<le> 1 \<and> [5 :: int, 5] \<noteq> []
   \<and> list_all (\<lambda>n. 2 * 1 < n) (tl [5 :: int, 5])
   \<and> (2 * 1 + 1) * prod_list (tl [5 :: int, 5]) \<le> 2 ^ 64
   \<and> (\<exists>offs. neighboring_cells [5, 5] 1 = Inr offs
         \<and> length offs = ((2 * nat 1 + 1) ^ length [5 :: int, 5] - 1) div 2
         \<and> (\<exists>prod. prod = itertools_product (replicate (length [5 :: int, 5]) (base 1))
              \<and> length prod = (2 * nat 1 + 1) ^ length [5 :: int, 5]
              \<and> prod ! (length prod div 2) = replicate (length [5 :: int, 5]) 0
              \<and> mixed_radix [5, 5] (replicate (length [5 :: int, 5]) 0) = 0
              \<and> offs = map (mixed_radix [5, 5]) (drop (length prod div 2 + 1) prod)
              \<and> (\<forall>t\<in>set prod. \<forall>t'\<in>set prod.
                    mixed_radix [5, 5] t = mixed_radix [5, 5] t' \<longrightarrow> t = t')
              \<and> distinct offs \<and> 0 \<notin> set offs
              \<and> (\<forall>t\<in>set prod. t \<noteq> replicate (length [5 :: int, 5]) 0 \<longrightarrow>
                    (mixed_radix [5, 5] t \<in> set offs) \<noteq> (- mixed_radix [5, 5] t \<in> set offs))))"
proof -
  have h: "(1 :: int) \<le> 1" "[5 :: int, 5] \<noteq> []" by simp_all
  have b: "\<forall>n\<in>set (tl [5 :: int, 5]). 2 * 1 < n" by simp
  have s: "(2 * 1 + 1) * prod_list (tl [5 :: int, 5]) \<le> 2 ^ 64" by simp
  from neighboring_cells_half [OF h] b s have "\<exists>offs. neighboring_cells [5, 5] 1 = Inr offs
         \<and> length offs = ((2 * nat 1 + 1) ^ length [5 :: int, 5] - 1) div 2
         \<and> (\<exists>prod. prod = itertools_product (replicate (length [5 :: int, 5]) (base 1))
              \<and> length prod = (2 * nat 1 + 1) ^ length [5 :: int, 5]
              \<and> prod ! (length prod div 2) = replicate (length [5 :: int, 5]) 0
              \<and> mixed_radix [5, 5] (replicate (length [5 :: int, 5]) 0) = 0
              \<and> offs = map (mixed_radix [5, 5]) (drop (length prod div 2 + 1) prod)
              \<and> (\<forall>t\<in>set prod. \<forall>t'\<in>set prod.
                    mixed_radix [5, 5] t = mixed_radix [5, 5] t' \<longrightarrow> t = t')
              \<and> distinct offs \<and> 0 \<notin> set offs
              \<and> (\<forall>t\<in>set prod. t \<noteq> replicate (length [5 :: int, 5]) 0 \<longrightarrow>
                    (mixed_radix [5, 5] t \<in> set offs) \<noteq> (- mixed_radix [5, 5] t \<in> set offs)))"
    by blast
  moreover have "list_all (\<lambda>n. 2 * 1 < n) (tl [5 :: int, 5])" by simp
  ultimately show ?thesis using h s by blast
qed

text \<open>
  C3 (counterexample). The points \<open>(0, 0)\<close>, \<open>(2^62, 0)\<close> and \<open>(1, 1)\<close> with cell size 1: the
  grid has shape \<open>[2^62 + 3, 4]\<close>, whose product wraps to 12, so the count and offset arrays
  have 12 entries. Point 2 has the cell id \<open>2 * 4 + 2 = 10\<close>; cell 10 holds a point, the
  offsets of radius 1 are \<open>[1, 3, 4, 5]\<close>, and \<open>10 + 3\<close> is no index of the arrays: the
  enumeration over all cells ends in an index error.
\<close>

theorem ghost_cells_out_of_bounds:
  "add_to_cells (Mat [[0, 0], [4611686018427387904, 0], [1, 1]]) 1 =
     Inr ([1, 0, 2], [0, 0, 0, 0, 0, 2, 0, 0, 0, 0, 1, 0], [0, 0, 0, 0, 0, 0, 2, 2, 2, 2, 2, 3],
          [4611686018427387907, 4])
   \<and> np_prod [4611686018427387907, 4] = 12
   \<and> neighboring_cells [4611686018427387907, 4] 1 = Inr [1, 3, 4, 5]
   \<and> getitem [0, 0, 0, 0, 0, 2, 0, 0, 0, 0, 1, 0 :: int] 10 = Inr 1
   \<and> np_prod [4611686018427387907, 4] \<le> 10 + 3
   \<and> find_points_in_cell (10 + 3) [1, 0, 2] [0, 0, 0, 0, 0, 2, 0, 0, 0, 0, 1, 0]
        [0, 0, 0, 0, 0, 0, 2, 2, 2, 2, 2, 3] = Inl IndexError
   \<and> iter_nearest_neighbors (arange 12) [1, 3, 4, 5] [1, 0, 2]
        [0, 0, 0, 0, 0, 2, 0, 0, 0, 0, 1, 0] [0, 0, 0, 0, 0, 0, 2, 2, 2, 2, 2, 3]
      = Inl IndexError"
  by code_simp

text \<open>
  C3 (amended). For the grid of a non-empty 2-dimensional array that fits the 64-bit
  integers (the product over the dimensions of largest minus smallest cell coordinate plus
  3 is below \<open>2^63\<close>) and the offsets of radius 1: for every cell c that holds a point and
  every offset, the sum of c and the offset is a cell of the grid, whose size is the
  length of the count and offset arrays; every block
  \<^verbatim>\<open>[cells_offset[c], cells_offset[c] + cells_count[c])\<close> lies inside the array of point
  indices; and the enumeration over all cells runs to its end without an index error.
\<close>

theorem ghost_cells_keep_in_bounds:
  assumes "valid_points D rows" "0 < cell_size" "fits cell_size rows"
  shows "\<exists>p cc co shape offs pairs.
           add_to_cells (Mat rows) cell_size = Inr (p, cc, co, shape)
         \<and> neighboring_cells shape 1 = Inr offs
         \<and> int (length cc) = np_prod shape \<and> length co = length cc
         \<and> (\<forall>c off. 0 \<le> c \<and> c < int (length cc) \<and> 0 < cc ! nat c \<and> off \<in> set offs
               \<longrightarrow> 0 \<le> c + off \<and> c + off < np_prod shape)
         \<and> (\<forall>c. 0 \<le> c \<and> c < int (length cc)
               \<longrightarrow> 0 \<le> co ! nat c \<and> 0 \<le> cc ! nat c
                 \<and> co ! nat c + cc ! nat c \<le> int (length p))
         \<and> iter_nearest_neighbors (arange (length cc)) offs p cc co = Inr pairs"
proof -
  let ?cells = "cell_ids cell_size rows" and ?shape = "extents cell_size rows"
  let ?offs = "map (flat ?shape) (kept_tuples D 1)"
  from add_to_cells_layout [OF assms] obtain p cc co where
    r: "add_to_cells (Mat rows) cell_size = Inr (p, cc, co, ?shape)"
    and G0: "int (length cc) = prod_list ?shape"
    and cnt: "counted ?cells cc"
    and inv: "place_inv ?cells cc (length rows) p co"
    by blast
  have "\<forall>x\<in>set ?shape. 1 \<le> x" using extents_range(1) [OF assms(1,3)] by fastforce
  then have "np_prod ?shape = prod_list ?shape"
    using assms(3) by (intro np_prod_prod_list) (simp_all add: fits_def)
  with G0 have G: "int (length cc) = np_prod ?shape" by simp
  have lc: "length ?cells = length rows" by (simp add: cell_ids_def)
  have inv': "place_inv ?cells cc (length ?cells) p co" using inv by (simp add: lc)
  have n: "neighboring_cells ?shape 1 = Inr ?offs"
    by (rule neighboring_cells_grid [OF assms(1,3)])
  have nb: "0 \<le> c + off \<and> c + off < int (length cc)"
    if "0 \<le> c" "c < int (length cc)" "cc ! nat c \<noteq> 0" "off \<in> set ?offs" for c off
    using neighbour_in_grid [OF assms(1) occupied_cell [OF cnt that(1,2,3)] that(4)] G0 by simp
  have bl: "0 \<le> co ! nat c \<and> 0 \<le> cc ! nat c \<and> co ! nat c + cc ! nat c \<le> int (length p)"
    if "0 \<le> c \<and> c < int (length cc)" for c
    using final_find(2,3,4) [OF cnt inv', of c] that by simp
  have "\<forall>c off. 0 \<le> c \<and> c < int (length cc) \<and> cc ! nat c \<noteq> 0 \<and> off \<in> set ?offs
          \<longrightarrow> 0 \<le> c + off \<and> c + off < int (length cc)"
    using nb by simp
  from iter_nearest_neighbors_run [OF cnt inv' this, of "arange (length cc)"]
  have run: "iter_nearest_neighbors (arange (length cc)) ?offs p cc co =
             Inr (concat (map (emitted ?cells ?offs) (arange (length cc))))"
    by (simp add: arange_def)
  have lco: "length co = length cc" using inv by (simp add: place_inv_def)
  have nb': "\<forall>c off. 0 \<le> c \<and> c < int (length cc) \<and> 0 < cc ! nat c \<and> off \<in> set ?offs
          \<longrightarrow> 0 \<le> c + off \<and> c + off < np_prod ?shape"
    using nb G by simp
  show ?thesis using r n G lco nb' bl run by blast
qed

theorem ghost_cells_keep_in_bounds_witness:
  "valid_points 2 [[0, 0], [1 / 10, 0], [2, 2], [21 / 10, 2]] \<and> (0 :: real) < 1
   \<and> fits 1 [[0, 0], [1 / 10, 0], [2, 2], [21 / 10, 2]]
   \<and> (\<exists>p cc co shape offs pairs.
           add_to_cells (Mat [[0, 0], [1 / 10, 0], [2, 2], [21 / 10, 2]]) 1 = Inr (p, cc, co, shape)
         \<and> neighboring_cells shape 1 = Inr offs
         \<and> int (length cc) = np_prod shape \<and> length co = length cc
         \<and> (\<forall>c off. 0 \<le> c \<and> c < int (length cc) \<and> 0 < cc ! nat c \<and> off \<in> set offs
               \<longrightarrow> 0 \<le> c + off \<and> c + off < np_prod shape)
         \<and> (\<forall>c. 0 \<le> c \<and> c < int (length cc)
               \<longrightarrow> 0 \<le> co ! nat c \<and> 0 \<le> cc ! nat c
                 \<and> co ! nat c + cc ! nat c \<le> int (length p))
         \<and> iter_nearest_neighbors (arange (length cc)) offs p cc co = Inr pairs)"
proof -
  have v: "valid_points 2 [[0, 0], [1 / 10, 0], [2, 2], [21 / 10, 2]]"
    by (simp add: valid_points_def)
  have c: "(0 :: real) < 1" by simp
  have f: "fits 1 [[0, 0], [1 / 10, 0], [2, 2], [21 / 10, 2]]" by code_simp
  from v c f ghost_cells_keep_in_bounds [OF v c f] show ?thesis by blast
qed

text \<open>
  C1 (counterexample). The points \<open>(0, 0)\<close>, \<open>(2^62, 0)\<close> and \<open>(0, 1)\<close> with cell size 1: the
  grid has shape \<open>[2^62 + 3, 4]\<close>, whose product wraps to 12. Point 0 has the cell id
  \<open>1 * 4 + 1 = 5\<close>, and the cell id of point 1, \<open>(2^62 + 1) * 4 + 1\<close>, wraps to 5 as well.
  The enumeration yields the pairs \<open>(1, 0)\<close> and \<open>(1, 2)\<close>, although the cell of point 1 is
  \<open>2^62\<close> cells away from the cells of the points 0 and 2.
\<close>

theorem pairs_of_distant_cells:
  "add_to_cells (Mat [[0, 0], [4611686018427387904, 0], [0, 1]]) 1 =
     Inr ([1, 0, 2], [0, 0, 0, 0, 0, 2, 1, 0, 0, 0, 0, 0], [0, 0, 0, 0, 0, 0, 2, 3, 3, 3, 3, 3],
          [4611686018427387907, 4])
   \<and> neighboring_cells [4611686018427387907, 4] 1 = Inr [1, 3, 4, 5]
   \<and> iter_nearest_neighbors (arange 12) [1, 3, 4, 5] [1, 0, 2]
        [0, 0, 0, 0, 0, 2, 1, 0, 0, 0, 0, 0] [0, 0, 0, 0, 0, 0, 2, 3, 3, 3, 3, 3]
      = Inr [(1, 0), (1, 2), (0, 2)]
   \<and> cell_row 1 [0, 0] = [0, 0]
   \<and> cell_row 1 [4611686018427387904, 0] = [4611686018427387904, 0]
   \<and> cell_row 1 [0, 1] = [0, 1]
   \<and> chebyshev [4611686018427387904, 0] [0, 0] = 4611686018427387904
   \<and> chebyshev [4611686018427387904, 0] [0, 1] = 4611686018427387904"
  by code_simp

text \<open>
  C1 (amended). For a non-empty 2-dimensional array and a positive cell size whose grid
  fits the 64-bit integers (the product over the dimensions of largest minus smallest cell
  coordinate plus 3 is below \<open>2^63\<close>), with the offsets of radius 1 for the grid shape that
  \<open>add_to_cells\<close> returns, the enumeration over all cell indices returns, and the emitted
  pairs, read as unordered pairs, are without repetition exactly the unordered pairs of
  two different points whose integer cell coordinates, as the code computes them, differ
  by at most 1 in every dimension (Chebyshev distance of the cells at most 1, equal cells
  included).
\<close>

theorem pairs_exactly_once:
  assumes "valid_points D rows" "0 < cell_size" "fits cell_size rows"
  shows "\<exists>p cc co shape offs pairs.
           add_to_cells (Mat rows) cell_size = Inr (p, cc, co, shape)
         \<and> neighboring_cells shape 1 = Inr offs
         \<and> iter_nearest_neighbors (arange (length cc)) offs p cc co = Inr pairs
         \<and> distinct (map upair pairs)
         \<and> mset (map upair pairs) =
             mset_set {{int i, int j} |i j. i < length rows \<and> j < length rows \<and> i \<noteq> j
               \<and> chebyshev (cell_row cell_size (rows ! i)) (cell_row cell_size (rows ! j)) \<le> 1}"
proof -
  let ?cells = "cell_ids cell_size rows" and ?shape = "extents cell_size rows"
  let ?offs = "map (flat ?shape) (kept_tuples D 1)"
  from add_to_cells_layout [OF assms] obtain p cc co where
    r: "add_to_cells (Mat rows) cell_size = Inr (p, cc, co, ?shape)"
    and G: "int (length cc) = prod_list ?shape"
    and cnt: "counted ?cells cc"
    and inv: "place_inv ?cells cc (length rows) p co"
    by blast
  have lc: "length ?cells = length rows" by (simp add: cell_ids_def)
  have inv': "place_inv ?cells cc (length ?cells) p co" using inv by (simp add: lc)
  have n: "neighboring_cells ?shape 1 = Inr ?offs"
    by (rule neighboring_cells_grid [OF assms(1,3)])
  have "0 \<le> c + off \<and> c + off < int (length cc)"
    if "0 \<le> c" "c < int (length cc)" "cc ! nat c \<noteq> 0" "off \<in> set ?offs" for c off
    using neighbour_in_grid [OF assms(1) occupied_cell [OF cnt that(1,2,3)] that(4)] G by simp
  then have nb: "\<forall>c off. 0 \<le> c \<and> c < int (length cc) \<and> cc ! nat c \<noteq> 0 \<and> off \<in> set ?offs
          \<longrightarrow> 0 \<le> c + off \<and> c + off < int (length cc)"
    by blast
  let ?pairs = "concat (map (emitted ?cells ?offs) (arange (length cc)))"
  from iter_nearest_neighbors_run [OF cnt inv' nb, of "arange (length cc)"]
  have run: "iter_nearest_neighbors (arange (length cc)) ?offs p cc co = Inr ?pairs"
    by (simp add: arange_def)
  note op = offsets_props [OF assms(1), where c = cell_size]
  have dc: "distinct (arange (length cc))" by (simp add: arange_def distinct_map)
  have cover: "set ?cells \<subseteq> set (arange (length cc))"
  proof
    fix l assume "l \<in> set ?cells"
    then have "0 \<le> l \<and> l < int (length cc)" using cnt by (simp add: counted_def)
    then have "l = int (nat l)" "nat l < length cc" by auto
    then have "l \<in> int ` {0..<length cc}" by (metis atLeastLessThan_iff imageI le0)
    then show "l \<in> set (arange (length cc))" by (simp add: arange_def)
  qed
  have d: "distinct (map upair ?pairs)"
    by (rule emitted_all_distinct [OF dc op(1,2,3)])
  have "set (map upair ?pairs) =
        {{int i, int j} |i j. i < length ?cells \<and> j < length ?cells \<and> i \<noteq> j
            \<and> (?cells ! i = ?cells ! j \<or> ?cells ! j - ?cells ! i \<in> set ?offs
                \<or> ?cells ! i - ?cells ! j \<in> set ?offs)}"
    by (rule emitted_all_set [OF cover op(2)])
  also have "\<dots> = {{int i, int j} |i j. i < length rows \<and> j < length rows \<and> i \<noteq> j
               \<and> chebyshev (cell_row cell_size (rows ! i)) (cell_row cell_size (rows ! j)) \<le> 1}"
    using adjacency_iff [OF assms(1), of _ _ cell_size] unfolding lc
    by (intro Collect_cong) blast
  finally have s: "set (map upair ?pairs) =
      {{int i, int j} |i j. i < length rows \<and> j < length rows \<and> i \<noteq> j
         \<and> chebyshev (cell_row cell_size (rows ! i)) (cell_row cell_size (rows ! j)) \<le> 1}" .
  have "mset (map upair ?pairs) = mset_set (set (map upair ?pairs))"
    using d by (simp only: mset_set_set)
  then have m: "mset (map upair ?pairs) =
      mset_set {{int i, int j} |i j. i < length rows \<and> j < length rows \<and> i \<noteq> j
         \<and> chebyshev (cell_row cell_size (rows ! i)) (cell_row cell_size (rows ! j)) \<le> 1}"
    by (simp only: s)
  show ?thesis using r n run d m by blast
qed

theorem pairs_exactly_once_witness:
  "valid_points 2 [[0, 0], [1 / 10, 0], [2, 2], [21 / 10, 2]] \<and> (0 :: real) < 1
   \<and> fits 1 [[0, 0], [1 / 10, 0], [2, 2], [21 / 10, 2]]
   \<and> (\<exists>p cc co shape offs pairs.
           add_to_cells (Mat [[0, 0], [1 / 10, 0], [2, 2], [21 / 10, 2]]) 1 = Inr (p, cc, co, shape)
         \<and> neighboring_cells shape 1 = Inr offs
         \<and> iter_nearest_neighbors (arange (length cc)) offs p cc co = Inr pairs
         \<and> distinct (map upair pairs)
         \<and> mset (map upair pairs) =
             mset_set {{int i, int j} |i j.
               i < length [[0 :: real, 0], [1 / 10, 0], [2, 2], [21 / 10, 2]]
               \<and> j < length [[0 :: real, 0], [1 / 10, 0], [2, 2], [21 / 10, 2]] \<and> i \<noteq> j
               \<and> chebyshev (cell_row 1 ([[0, 0], [1 / 10, 0], [2, 2], [21 / 10, 2]] ! i))
                            (cell_row 1 ([[0, 0], [1 / 10, 0], [2, 2], [21 / 10, 2]] ! j)) \<le> 1})"
proof -
  have v: "valid_points 2 [[0, 0], [1 / 10, 0], [2, 2], [21 / 10, 2]]"
    by (simp add: valid_points_def)
  have c: "(0 :: real) < 1" by simp
  have f: "fits 1 [[0, 0], [1 / 10, 0], [2, 2], [21 / 10, 2]]" by code_simp
  from v c f pairs_exactly_once [OF v c f] show ?thesis by blast
qed

section \<open>The partition of the scenario\<close>

text \<open>
  C10 (amended). When the entry of the cumulative array that belongs to the empty cell 0,
  which the cost loop never writes, is below the part size 3, the boundaries are
  \<open>[0, 1, 4]\<close>; the first range costs 0 and the second costs 5.
\<close>

theorem partition_scenario:
  assumes "length u = 4" "u ! 0 < 3"
  shows "partition_cells 2 [0, 3, 0, 2] [] u = Inr [0, 1, 4]
       \<and> range_cost [0, 3, 0, 2] [] [0] = Inr 0
       \<and> range_cost [0, 3, 0, 2] [] [1, 2, 3] = Inr 5"
proof -
  from assms(1) obtain a b c d where u: "u = [a, b, c, d]"
    by (cases u; cases "tl u"; cases "tl (tl u)"; cases "tl (tl (tl u))") auto
  have a: "a < 3" using assms(2) u by simp
  have i: "interactions [0, 3, 0, 2] [] 0 u (enumerate_int [0, 3, 0, 2]) = Inr (5, [a, 4, c, 5])"
    by (simp add: u enumerate_int_def setitem_def py_index_def upt_rec)
  have s: "\<lceil>real_of_int 5 / real_of_int 2\<rceil> = (3 :: int)" by simp
  have e: "setitem (np_empty 3) 0 0 = Inr [0, 0, 0]"
    by (simp add: np_empty_def setitem_def py_index_def numeral_3_eq_3)
  have f: "setitem [0, 0, 0] (- 1) 4 = Inr [0, 0, 4 :: int]"
    by (simp add: setitem_def py_index_def)
  have l: "split_loop 2 [a, 4, c, 5] 3 [0, 0, 4] 1 0 = Inr [0, 1, 4]"
    using a by (simp add: getitem_def setitem_def py_index_def)
  have "partition_cells 2 [0, 3, 0, 2] [] u = Inr [0, 1, 4]"
    unfolding partition_cells_def by (simp add: i e f l del: split_loop.simps)
  moreover have "range_cost [0, 3, 0, 2] [] [0] = Inr 0"
    by (simp add: cell_cost_def getitem_def py_index_def)
  moreover have "range_cost [0, 3, 0, 2] [] [1, 2, 3] = Inr 5"
    by (simp add: cell_cost_def getitem_def py_index_def)
  ultimately show ?thesis by simp
qed

theorem partition_scenario_witness:
  "length [2, 9, 9, 9 :: int] = 4 \<and> [2, 9, 9, 9 :: int] ! 0 < 3
   \<and> partition_cells 2 [0, 3, 0, 2] [] [2, 9, 9, 9] = Inr [0, 1, 4]
   \<and> range_cost [0, 3, 0, 2] [] [0] = Inr 0
   \<and> range_cost [0, 3, 0, 2] [] [1, 2, 3] = Inr 5"
  using partition_scenario [of "[2, 9, 9, 9]"] by simp

section \<open>Concrete runs\<close>

text \<open>
  C5 (evaluation at the failing input). For the points \<open>-0.5\<close> and \<open>0.5\<close> with cell size 1
  the code's cell coordinate of \<open>-0.5\<close> is 0, where the floor is \<open>-1\<close>: minimum and maximum
  are both 0, the grid has shape \<open>[3]\<close> and both points fall into cell 1.
\<close>

theorem add_to_cells_truncates_negative:
  "cell_row 1 [- 1 / 2] = [0] \<and> \<lfloor>(- 1 / 2) / (1 :: real)\<rfloor> = - 1
   \<and> x_min 1 [[- 1 / 2], [1 / 2]] = [0] \<and> x_max 1 [[- 1 / 2], [1 / 2]] = [0]
   \<and> add_to_cells (Mat [[- 1 / 2], [1 / 2]]) 1 = Inr ([1, 0], [0, 2, 0], [0, 0, 2], [3])"
  by code_simp

text \<open>
  C6 (evaluation at the failing input). With three parts asked for and the counts
  \<open>[2, 1, 1]\<close>, no neighbour offsets, the cumulative costs are \<open>[1, 1, 1]\<close> and the part size is
  1: the second boundary waits for a cumulative cost of 2, the scan leaves the array and the
  call ends in an index error instead of returning boundaries.
\<close>

theorem partition_cells_index_error:
  "partition_cells 3 [2, 1, 1] [] [0, 0, 0] = Inl IndexError"
  by code_simp

text \<open>
  C8 (evaluation at the failing input). An array with no rows and a positive cell size
  passes the assertion, which looks only at the cell size and the number of dimensions;
  the next statement reads row 0, which the array does not have. Under checked indexing
  the call ends in an index error; it does not end in the assertion error.
\<close>

theorem add_to_cells_empty_not_assertion:
  "add_to_cells (Mat []) 1 = Inl IndexError \<and> add_to_cells (Mat []) 1 \<noteq> Inl AssertionError"
  by code_simp


text \<open>
  C9. The four points \<open>(0,0), (0.1,0), (2,2), (2.1,2)\<close> with cell size 1: the grid has shape
  \<open>[5, 5]\<close>, the counts sum to 4, the offsets of radius 1 are \<open>[1, 4, 5, 6]\<close>, and the
  enumeration over all 25 cells yields the pair of the points 1 and 0 (cell 6) and the pair
  of the points 3 and 2 (cell 18), both from the loop over one cell; the loops over the
  neighbours of the two occupied cells yield nothing.
\<close>

theorem four_points_scenario:
  "add_to_cells (Mat [[0, 0], [1 / 10, 0], [2, 2], [21 / 10, 2]]) 1 =
     Inr ([1, 0, 3, 2],
          [0, 0, 0, 0, 0, 0, 2, 0, 0, 0, 0, 0, 0, 0, 0, 0, 0, 0, 2, 0, 0, 0, 0, 0, 0],
          [0, 0, 0, 0, 0, 0, 0, 2, 2, 2, 2, 2, 2, 2, 2, 2, 2, 2, 2, 4, 4, 4, 4, 4, 4],
          [5, 5])
   \<and> sum_list [0, 0, 0, 0, 0, 0, 2, 0, 0, 0, 0, 0, 0, 0, 0, 0, 0, 0, 2, 0, 0, 0, 0, 0, 0 :: int] = 4
   \<and> neighboring_cells [5, 5] 1 = Inr [1, 4, 5, 6]
   \<and> iter_nearest_neighbors (arange 25) [1, 4, 5, 6] [1, 0, 3, 2]
        [0, 0, 0, 0, 0, 0, 2, 0, 0, 0, 0, 0, 0, 0, 0, 0, 0, 0, 2, 0, 0, 0, 0, 0, 0]
        [0, 0, 0, 0, 0, 0, 0, 2, 2, 2, 2, 2, 2, 2, 2, 2, 2, 2, 2, 4, 4, 4, 4, 4, 4]
      = Inr [(1, 0), (3, 2)]
   \<and> intra_pairs [1, 0] @ intra_pairs [3, 2] = [(1, 0), (3, 2)]
   \<and> neighbor_loop 6 [1, 0] [1, 0, 3, 2]
        [0, 0, 0, 0, 0, 0, 2, 0, 0, 0, 0, 0, 0, 0, 0, 0, 0, 0, 2, 0, 0, 0, 0, 0, 0]
        [0, 0, 0, 0, 0, 0, 0, 2, 2, 2, 2, 2, 2, 2, 2, 2, 2, 2, 2, 4, 4, 4, 4, 4, 4]
        [1, 4, 5, 6] = Inr []
   \<and> neighbor_loop 18 [3, 2] [1, 0, 3, 2]
        [0, 0, 0, 0, 0, 0, 2, 0, 0, 0, 0, 0, 0, 0, 0, 0, 0, 0, 2, 0, 0, 0, 0, 0, 0]
        [0, 0, 0, 0, 0, 0, 0, 2, 2, 2, 2, 2, 2, 2, 2, 2, 2, 2, 2, 4, 4, 4, 4, 4, 4]
        [1, 4, 5, 6] = Inr []"
  by code_simp

text \<open>
  C10 (counterexample). With the unwritten entries of the cumulative array at 0, the
  boundaries are \<open>[0, 1, 4]\<close>: the first range (cell 0) costs 0, the second (cells 1 to 3)
  costs 5, and no cell costs as much as their difference (the cells cost 0, 4, 0 and 1).
\<close>

theorem partition_scenario_not_balanced:
  "partition_cells 2 [0, 3, 0, 2] [] [0, 0, 0, 0] = Inr [0, 1, 4]
   \<and> map (cell_cost [0, 3, 0, 2] []) [0, 1, 2, 3] = [Inr 0, Inr 4, Inr 0, Inr 1]
   \<and> range_cost [0, 3, 0, 2] [] [0] = Inr 0
   \<and> range_cost [0, 3, 0, 2] [] [1, 2, 3] = Inr 5
   \<and> \<not> balanced_within_cell [0, 3, 0, 2] [] 1"
  by code_simp

end
